theory Spec2Isabelle
  imports Complex_Main "HOL-Library.While_Combinator" "HOL-Library.Word" "HOL-Library.Product_Lexorder"
begin

chapter \<open>The model\<close>

section \<open>Common data\<close>

text \<open>
  A voxel coordinate is the Python tuple \<open>(y, z, x)\<close> of unbounded integers, and a layout
  shape \<open>(height, width, length)\<close> has the same form. The exceptions that the modelled
  functions raise are values of \<open>error\<close>; a function that can raise returns
  \<open>error + 'a\<close>, and one whose loop may run forever returns an \<open>option\<close> of that,
  \<open>None\<close> standing for a call that never returns.
\<close>

type_synonym coord = "int \<times> int \<times> int"

type_synonym shape = "int \<times> int \<times> int"

datatype error = IndexError | TypeError | ValueError | ZeroDivisionError | KeyError

text \<open>Running a loop body over a list, stopping at the first exception.\<close>

fun fold_err :: "('a \<Rightarrow> 's \<Rightarrow> error + 's) \<Rightarrow> 'a list \<Rightarrow> 's \<Rightarrow> error + 's" where
  "fold_err f [] s = Inr s"
| "fold_err f (x # xs) s = (case f x s of Inl e \<Rightarrow> Inl e | Inr s' \<Rightarrow> fold_err f xs s')"

subsection \<open>Dense three-dimensional arrays\<close>

text \<open>
  A numpy array of a given shape is a function from coordinates to values that is only
  ever written at the canonical indices \<open>0 \<le> i < n\<close> of each axis. numpy accepts an index
  \<open>i\<close> on an axis of size \<open>n\<close> when \<open>-n \<le> i < n\<close>, and a negative index counts from the
  end; any other index raises IndexError.
\<close>

type_synonym 'a grid = "coord \<Rightarrow> 'a"

definition np_index :: "int \<Rightarrow> int \<Rightarrow> int option" where
  "np_index n i =
     (if 0 \<le> i \<and> i < n then Some i
      else if - n \<le> i \<and> i < 0 then Some (i + n)
      else None)"

definition np_index3 :: "shape \<Rightarrow> coord \<Rightarrow> coord option" where
  "np_index3 dims c =
     (case dims of (h, w, l) \<Rightarrow>
      case c of (y, z, x) \<Rightarrow>
        (case np_index h y of None \<Rightarrow> None
         | Some y' \<Rightarrow>
        (case np_index w z of None \<Rightarrow> None
         | Some z' \<Rightarrow>
        (case np_index l x of None \<Rightarrow> None
         | Some x' \<Rightarrow> Some (y', z', x')))))"

definition np_setitem :: "shape \<Rightarrow> 'a grid \<Rightarrow> coord \<Rightarrow> 'a \<Rightarrow> error + 'a grid" where
  "np_setitem dims g c v =
     (case np_index3 dims c of None \<Rightarrow> Inl IndexError | Some c' \<Rightarrow> Inr (g(c' := v)))"

definition np_getitem :: "shape \<Rightarrow> 'a grid \<Rightarrow> coord \<Rightarrow> error + 'a" where
  "np_getitem dims g c =
     (case np_index3 dims c of None \<Rightarrow> Inl IndexError | Some c' \<Rightarrow> Inr (g c'))"

section \<open>Initial router: \<open>Router.dumb_route\<close>\<close>

text \<open>
  \<open>xrange(start, stop)\<close> with \<open>stop = max + 1\<close> enumerates the integers
  \<open>start, \<dots>, max\<close>, which is the list \<open>[start..max]\<close>. The first loop appends
  \<open>(ay, az, x)\<close>, the second \<open>(ay, z, bx)\<close>; the y coordinate of \<open>b\<close> is unpacked
  and never used.
\<close>

definition dumb_route :: "coord \<Rightarrow> coord \<Rightarrow> coord list" where
  "dumb_route a b =
     (case a of (a_y, a_z, a_x) \<Rightarrow>
      case b of (b_y, b_z, b_x) \<Rightarrow>
        map (\<lambda>x. (a_y, a_z, x)) [min a_x b_x..max a_x b_x] @
        map (\<lambda>z. (a_y, z, b_x)) [min a_z b_z..max a_z b_z])"

section \<open>Violation model: \<open>Router.net_to_wire_and_violation\<close>\<close>

text \<open>
  The two block ids \<open>redstone\<close> and \<open>stone\<close> are positions in the table
  \<open>util.blocks.block_names\<close>, which is not part of the routed code; they are parameters
  here. \<open>wire\<close> is an \<open>int8\<close> array, so a stored id is kept modulo \<open>2^8\<close>;
  \<open>violation\<close> is a boolean array. The path \<open>net\<close> is \<open>None\<close> when the caller
  hands over the result of a maze route that found nothing, and iterating over it
  raises TypeError. \<open>np.zeros\<close> refuses a negative dimension with ValueError.
\<close>

definition violation_directions :: "(int \<times> int) list" where
  "violation_directions = [(1, 0), (-1, 0), (0, 1), (0, -1)]"

text \<open>The eight voxels visited by the loops \<open>for vy in [0, -1]: for vz, vx in \<dots>\<close>.\<close>

definition violation_neighbours :: "coord \<Rightarrow> coord list" where
  "violation_neighbours c =
     (case c of (y, z, x) \<Rightarrow>
        concat (map (\<lambda>vy. map (\<lambda>(vz, vx). (y + vy, z + vz, x + vx)) violation_directions)
                    [0, -1]))"

text \<open>\<open>try: violation[\<dots>] = True  except IndexError: pass\<close>\<close>

definition mark_violation :: "shape \<Rightarrow> coord \<Rightarrow> bool grid \<Rightarrow> bool grid" where
  "mark_violation dims c violation =
     (case np_setitem dims violation c True of Inl e \<Rightarrow> violation | Inr v \<Rightarrow> v)"

text \<open>The body of the first loop over the path.\<close>

definition wire_step ::
  "int \<Rightarrow> int \<Rightarrow> shape \<Rightarrow> coord list \<Rightarrow> coord \<Rightarrow> 8 word grid \<times> bool grid \<Rightarrow>
   error + (8 word grid \<times> bool grid)" where
  "wire_step redstone stone dims pins coord wv =
     (case wv of (wire, violation) \<Rightarrow>
      case coord of (y, z, x) \<Rightarrow>
        (case np_setitem dims wire (y, z, x) (word_of_int redstone) of Inl e \<Rightarrow> Inl e
         | Inr wire1 \<Rightarrow>
        (case np_setitem dims wire1 (y - 1, z, x) (word_of_int stone) of Inl e \<Rightarrow> Inl e
         | Inr wire2 \<Rightarrow>
           Inr (wire2,
                if coord \<notin> set pins
                then fold (mark_violation dims) (violation_neighbours coord) violation
                else violation))))"

text \<open>The body of the second loop, which clears the wire's own voxels.\<close>

definition clear_step :: "shape \<Rightarrow> coord \<Rightarrow> bool grid \<Rightarrow> error + bool grid" where
  "clear_step dims coord violation =
     (case coord of (y, z, x) \<Rightarrow>
        (case np_setitem dims violation (y, z, x) False of Inl e \<Rightarrow> Inl e
         | Inr v1 \<Rightarrow> np_setitem dims v1 (y - 1, z, x) False))"

definition net_to_wire_and_violation ::
  "int \<Rightarrow> int \<Rightarrow> coord list option \<Rightarrow> shape \<Rightarrow> coord list \<Rightarrow>
   error + (8 word grid \<times> bool grid)" where
  "net_to_wire_and_violation redstone stone net dimensions pins =
     (case dimensions of (h, w, l) \<Rightarrow>
        if h < 0 \<or> w < 0 \<or> l < 0 then Inl ValueError
        else
          (case net of None \<Rightarrow> Inl TypeError
           | Some path \<Rightarrow>
          (case fold_err (wire_step redstone stone dimensions pins) path
                  (\<lambda>c. 0, \<lambda>c. False) of
             Inl e \<Rightarrow> Inl e
           | Inr (wire, violation) \<Rightarrow>
          (case fold_err (clear_step dimensions) path violation of
             Inl e \<Rightarrow> Inl e
           | Inr violation' \<Rightarrow> Inr (wire, violation')))))"

section \<open>Placer: \<open>generate\<close>\<close>

text \<open>
  A placement entry is the dictionary with the keys \<open>name\<close>, \<open>placement\<close> (the anchor),
  \<open>turns\<close> and \<open>pins\<close>.
\<close>

record placement =
  p_name :: string
  p_placement :: coord
  p_turns :: nat
  p_pins :: "(string \<times> string) list"

text \<open>
  The random source is explicit. \<open>draws\<close> is the sequence of numbers behind the calls
  of \<open>random.choice\<close>: the \<open>k\<close>-th call on a list of \<open>n\<close> elements picks the index
  \<open>draws k mod n\<close>, so every sequence of picks is some \<open>draws\<close>. \<open>r\<close> is the value
  returned by the one call of \<open>random.random()\<close>.

  The loop \<open>while cellB is cellA: cellB = random.choice(new_placements)\<close> compares
  object identity; the entries of the deep copy are distinct objects, so two entries are
  the same object exactly when their indices are equal. The loop has no bound, and the
  model returns \<open>None\<close> when it never ends.
\<close>

partial_function (option) pick_cellB :: "(nat \<Rightarrow> nat) \<Rightarrow> nat \<Rightarrow> nat \<Rightarrow> nat \<Rightarrow> nat \<Rightarrow> nat option" where
  "pick_cellB draws n cellA cellB k =
     (if cellB = cellA then pick_cellB draws n cellA (draws k mod n) (Suc k)
      else Some cellB)"

declare pick_cellB.simps [code]

definition interchange_cells :: "placement list \<Rightarrow> nat \<Rightarrow> nat \<Rightarrow> placement list" where
  "interchange_cells ps i j =
     ps[i := (ps ! i)\<lparr>p_placement := p_placement (ps ! j)\<rparr>,
        j := (ps ! j)\<lparr>p_placement := p_placement (ps ! i)\<rparr>]"

text \<open>
  \<open>random.choice\<close> raises IndexError on an empty list, and \<open>1. / 0\<close> raises
  ZeroDivisionError. The branch \<open>else\<close> of the method test raises ValueError: the
  error named InvalidMethod.
\<close>

definition generate ::
  "placement list \<Rightarrow> string \<Rightarrow> int \<Rightarrow> (nat \<Rightarrow> nat) \<Rightarrow> real \<Rightarrow> (error + placement list) option" where
  "generate old_placements method displace_interchange_ratio draws r =
     (let new_placements = old_placements in
      if new_placements = [] then Some (Inl IndexError)
      else
        let cellA = draws 0 mod length new_placements in
        if displace_interchange_ratio = 0 then Some (Inl ZeroDivisionError)
        else if r > 1 / real_of_int displace_interchange_ratio then
          (case pick_cellB draws (length new_placements) cellA cellA 1 of
             None \<Rightarrow> None
           | Some cellB \<Rightarrow> Some (Inr (interchange_cells new_placements cellA cellB)))
        else if method = ''displace'' then Some (Inr new_placements)
        else if method = ''interchange'' then Some (Inr new_placements)
        else Some (Inl ValueError))"

section \<open>Rip-up loop: \<open>Router.normalize_net_scores\<close>\<close>

text \<open>
  The dictionary of score lists is an association list. Scores are exact numbers here:
  rounding is left out, and division follows Python's floats, where a zero divisor raises
  ZeroDivisionError. \<open>min\<close> of an empty list raises ValueError.
\<close>

definition normalize_net_scores ::
  "(string \<times> real list) list \<Rightarrow> real \<Rightarrow> error + (string \<times> real list) list" where
  "normalize_net_scores net_scores norm_margin =
     (let scores = concat (map snd net_scores) in
      if scores = [] then Inl ValueError
      else
        let min_score = Min (set scores);
            max_score = Max (set scores);
            norm_range = 1 - 2 * norm_margin
        in
        if max_score - min_score = 0 then Inl ZeroDivisionError
        else
          let scale = norm_range / (max_score - min_score) in
          Inr (map (\<lambda>(net_name, scores).
                       (net_name, map (\<lambda>score. norm_margin + score * scale) scores))
                   net_scores))"

section \<open>Routings and their persistence\<close>




text \<open>
  \<open>json.dump\<close> writes a tuple and a list alike as an array, a dictionary as an object,
  an integer as a number and \<open>None\<close> as \<open>null\<close>; \<open>json.loads\<close> reads them back.
  The text of a line is not modelled, only the value it stands for; a file is the list of
  its lines.
\<close>

datatype json = JNull | JNumber int | JString string | JArray "json list" | JObject "(string \<times> json) list"


















section \<open>Maze router: \<open>Router.maze_route\<close>\<close>

definition in_bounds :: "coord \<Rightarrow> shape \<Rightarrow> bool" where
  "in_bounds coord layout_dimensions =
     (case coord of (y, z, x) \<Rightarrow>
      case layout_dimensions of (height, width, len) \<Rightarrow>
        0 \<le> y \<and> y < height \<and> 0 \<le> z \<and> z < width \<and> 0 \<le> x \<and> x < len)"

text \<open>
  \<open>violating\<close> looks at the eight neighbours of a candidate voxel, skips those outside
  the layout and the two endpoints, and answers true at the first one that the usage
  matrix marks.
\<close>

definition violating :: "coord \<Rightarrow> coord \<Rightarrow> shape \<Rightarrow> bool grid \<Rightarrow> coord \<Rightarrow> bool" where
  "violating a b dims usage_matrix coord =
     (if coord \<in> set [a, b] then False
      else list_ex (\<lambda>new_coord. in_bounds new_coord dims \<and> new_coord \<notin> set [a, b] \<and>
                                 usage_matrix new_coord)
             (violation_neighbours coord))"

definition EAST :: int where "EAST = 1"
definition NORTH :: int where "NORTH = 2"
definition WEST :: int where "WEST = 3"
definition SOUTH :: int where "SOUTH = 4"
definition UP :: int where "UP = 5"
definition DOWN :: int where "DOWN = 6"

definition MOVE_EAST :: coord where "MOVE_EAST = (0, 0, 1)"
definition MOVE_NORTH :: coord where "MOVE_NORTH = (0, 1, 0)"
definition MOVE_WEST :: coord where "MOVE_WEST = (0, 0, -1)"
definition MOVE_SOUTH :: coord where "MOVE_SOUTH = (0, -1, 0)"
definition MOVE_UP :: coord where "MOVE_UP = (3, 0, 0)"
definition MOVE_DOWN :: coord where "MOVE_DOWN = (-3, 0, 0)"

definition movements :: "coord list" where
  "movements = [MOVE_EAST, MOVE_NORTH, MOVE_WEST, MOVE_SOUTH, MOVE_UP, MOVE_DOWN]"

definition backtraces :: "int list" where
  "backtraces = [WEST, SOUTH, EAST, NORTH, DOWN, UP]"

definition costs :: "int list" where
  "costs = [1, 1, 1, 1, 3, 3]"

definition violation_cost :: int where
  "violation_cost = 1000"

definition backtrace_movements :: "coord list" where
  "backtrace_movements = [MOVE_WEST, MOVE_SOUTH, MOVE_EAST, MOVE_NORTH, MOVE_DOWN, MOVE_UP]"

definition move_to :: "coord \<Rightarrow> coord \<Rightarrow> coord" where
  "move_to location movement =
     (case movement of (dy, dz, dx) \<Rightarrow>
      case location of (y, z, x) \<Rightarrow> (y + dy, z + dz, x + dx))"

text \<open>
  The state of the search: the set \<open>visited\<close>, the heap of \<open>(cost, location)\<close> pairs, and
  the two matrices. Costs are numpy integers of 64 bits; a cost is at most 1000 times the
  number of voxels of the layout, so it never wraps, and \<open>int\<close> stands for it.

  \<open>heapq.heappop\<close> removes the least entry in the order of Python's tuples, which
  compares the costs first and the locations next; \<open>heappush\<close> adds an entry. The order
  in which the heap array holds the others is never observed.
\<close>

record maze_state =
  visited :: "coord set"
  min_dist_heap :: "(int \<times> coord) list"
  cost_matrix :: "int grid"
  backtrace_matrix :: "int grid"

definition heappop :: "(int \<times> coord) list \<Rightarrow> (int \<times> coord) \<times> (int \<times> coord) list" where
  "heappop heap = (let least = Min (set heap) in (least, remove1 least heap))"

text \<open>
  Inside the loop every index is valid: \<open>location\<close> is \<open>a\<close>, which the assignment
  \<open>cost_matrix[a] = 0\<close> has accepted, or a voxel that passed \<open>in_bounds\<close>. A read at
  \<open>location\<close> goes to the canonical index.
\<close>

definition np_canon :: "shape \<Rightarrow> coord \<Rightarrow> coord" where
  "np_canon dims c = (case np_index3 dims c of None \<Rightarrow> c | Some c' \<Rightarrow> c')"

text \<open>The body of the loop over the six candidate movements.\<close>

definition relax ::
  "coord \<Rightarrow> coord \<Rightarrow> shape \<Rightarrow> bool grid \<Rightarrow> coord \<Rightarrow> coord \<times> int \<times> int \<Rightarrow> maze_state \<Rightarrow> maze_state" where
  "relax a b dims usage_matrix location m st =
     (case m of (movement, backtrace, movement_cost) \<Rightarrow>
        let new_location = move_to location movement in
        if \<not> in_bounds new_location dims then st
        else if new_location \<in> visited st then st
        else
          let new_location_cost =
                (if violating a b dims usage_matrix new_location
                 then cost_matrix st (np_canon dims location) + violation_cost
                 else cost_matrix st (np_canon dims location) + movement_cost);
              st1 =
                (if cost_matrix st new_location = -1 \<or>
                    new_location_cost < cost_matrix st new_location
                 then st\<lparr>cost_matrix := (cost_matrix st)(new_location := new_location_cost),
                         backtrace_matrix := (backtrace_matrix st)(new_location := backtrace)\<rparr>
                 else st)
          in
          if new_location \<notin> snd ` set (min_dist_heap st1)
          then st1\<lparr>min_dist_heap := min_dist_heap st1 @ [(new_location_cost, new_location)]\<rparr>
          else st1)"

text \<open>One round of the \<open>while\<close> loop: pop, mark visited, relax the six neighbours.\<close>

definition maze_step :: "coord \<Rightarrow> coord \<Rightarrow> shape \<Rightarrow> bool grid \<Rightarrow> maze_state \<Rightarrow> maze_state" where
  "maze_step a b dims usage_matrix st =
     (case heappop (min_dist_heap st) of
        ((c, location), heap) \<Rightarrow>
          fold (relax a b dims usage_matrix location) (zip movements (zip backtraces costs))
            (st\<lparr>min_dist_heap := heap, visited := insert location (visited st)\<rparr>))"

partial_function (option) maze_loop ::
  "coord \<Rightarrow> coord \<Rightarrow> shape \<Rightarrow> bool grid \<Rightarrow> maze_state \<Rightarrow> maze_state option" where
  "maze_loop a b dims usage_matrix st =
     (if min_dist_heap st = [] then Some st
      else maze_loop a b dims usage_matrix (maze_step a b dims usage_matrix st))"

declare maze_loop.simps [code]

text \<open>
  The search up to the end of the \<open>while\<close> loop. \<open>cost_matrix[a] = 0\<close> raises
  IndexError when \<open>a\<close> is no valid index of the layout.
\<close>

definition maze_search ::
  "coord \<Rightarrow> coord \<Rightarrow> shape \<Rightarrow> bool grid \<Rightarrow> (error + maze_state) option" where
  "maze_search a b dims usage_matrix =
     (case np_setitem dims (\<lambda>c. - 1) a 0 of
        Inl e \<Rightarrow> Some (Inl e)
      | Inr cost \<Rightarrow>
          map_option Inr
            (maze_loop a b dims usage_matrix
               \<lparr>visited = {}, min_dist_heap = [(0, a)], cost_matrix = cost,
                backtrace_matrix = (\<lambda>c. 0)\<rparr>))"

text \<open>
  \<open>backtraces.index(v)\<close> is the position of the first \<open>v\<close> in the list, and raises
  ValueError when there is none.
\<close>

fun list_index :: "'a list \<Rightarrow> 'a \<Rightarrow> nat option" where
  "list_index [] v = None"
| "list_index (x # xs) v = (if x = v then Some 0 else map_option Suc (list_index xs v))"

text \<open>
  The loop \<open>while net[-1] != a\<close> walks the backtrace matrix from \<open>b\<close>. It has no
  bound; \<open>None\<close> is a walk that never reaches \<open>a\<close>.
\<close>

partial_function (option) backtrace_loop ::
  "shape \<Rightarrow> int grid \<Rightarrow> coord \<Rightarrow> coord list \<Rightarrow> (error + coord list) option" where
  "backtrace_loop dims backtrace a net =
     (if last net = a then Some (Inr net)
      else
        (case np_getitem dims backtrace (last net) of
           Inl e \<Rightarrow> Some (Inl e)
         | Inr direction \<Rightarrow>
        (case list_index backtraces direction of
           None \<Rightarrow> Some (Inl ValueError)
         | Some i \<Rightarrow>
             backtrace_loop dims backtrace a
               (net @ [move_to (last net) (backtrace_movements ! i)]))))"

declare backtrace_loop.simps [code]

text \<open>
  \<open>maze_route\<close> takes the placed layout for its shape only. It returns the path from
  \<open>b\<close> back to \<open>a\<close>, or \<open>None\<close> when \<open>b\<close> was never visited.
\<close>

definition maze_route ::
  "coord \<Rightarrow> coord \<Rightarrow> shape \<Rightarrow> bool grid \<Rightarrow> (error + coord list option) option" where
  "maze_route a b dims usage_matrix =
     (case maze_search a b dims usage_matrix of
        None \<Rightarrow> None
      | Some (Inl e) \<Rightarrow> Some (Inl e)
      | Some (Inr st) \<Rightarrow>
          if b \<in> visited st
          then map_option (map_sum id Some) (backtrace_loop dims (backtrace_matrix st) a [b])
          else Some (Inr None))"

subsection \<open>Notions of the maze router's specification\<close>

text \<open>
  Reachability under the six moves inside the layout, the cost of one move and of a path
  (undefined when a step of the path is none of the six moves), the closed form of the
  cost between two voxels, and a layout in which no voxel is violating.
\<close>

inductive reachable :: "shape \<Rightarrow> coord \<Rightarrow> coord \<Rightarrow> bool" for dims :: shape and a :: coord where
  reachable_start: "reachable dims a a"
| reachable_move: "reachable dims a c \<Longrightarrow> m \<in> set movements \<Longrightarrow> in_bounds (move_to c m) dims \<Longrightarrow>
     reachable dims a (move_to c m)"

definition move_cost :: "coord \<Rightarrow> coord \<Rightarrow> int option" where
  "move_cost u v =
     map_option snd (find (\<lambda>(m, c). move_to u m = v) (zip movements costs))"

fun path_cost :: "coord list \<Rightarrow> int option" where
  "path_cost [] = Some 0"
| "path_cost [v] = Some 0"
| "path_cost (u # v # vs) =
     (case move_cost u v of None \<Rightarrow> None
      | Some c \<Rightarrow> map_option (\<lambda>r. c + r) (path_cost (v # vs)))"

definition maze_cost :: "coord \<Rightarrow> coord \<Rightarrow> int" where
  "maze_cost a b =
     (case a of (a_y, a_z, a_x) \<Rightarrow>
      case b of (b_y, b_z, b_x) \<Rightarrow>
        \<bar>b_z - a_z\<bar> + \<bar>b_x - a_x\<bar> + 3 * \<lceil>real_of_int \<bar>b_y - a_y\<bar> / 3\<rceil>)"

definition violation_free :: "coord \<Rightarrow> coord \<Rightarrow> shape \<Rightarrow> bool grid \<Rightarrow> bool" where
  "violation_free a b dims usage_matrix \<longleftrightarrow>
     (\<forall>c. in_bounds c dims \<longrightarrow> \<not> violating a b dims usage_matrix c)"

subsection \<open>Notions of the maze router's correctness proof\<close>

text \<open>
  The distance from \<open>a\<close> in a layout without obstacles, and the invariant of the search.
  \<open>F\<close> holds the pairs of a visited voxel and a movement that the loop over the
  movements has not processed yet.
\<close>

definition dist_from :: "coord \<Rightarrow> coord \<Rightarrow> int" where
  "dist_from a v =
     (case a of (a_y, a_z, a_x) \<Rightarrow>
      case v of (y, z, x) \<Rightarrow> \<bar>y - a_y\<bar> + \<bar>z - a_z\<bar> + \<bar>x - a_x\<bar>)"

definition same_layers :: "coord \<Rightarrow> coord \<Rightarrow> bool" where
  "same_layers a v \<longleftrightarrow> 3 dvd (fst v - fst a)"

definition heap_locations :: "maze_state \<Rightarrow> coord set" where
  "heap_locations st = snd ` set (min_dist_heap st)"

definition seen :: "maze_state \<Rightarrow> coord set" where
  "seen st = visited st \<union> heap_locations st"

definition moves :: "(coord \<times> int \<times> int) list" where
  "moves = zip movements (zip backtraces costs)"

definition maze_inv :: "coord \<Rightarrow> shape \<Rightarrow> (coord \<times> coord) set \<Rightarrow> maze_state \<Rightarrow> bool" where
  "maze_inv a dims F st \<longleftrightarrow>
     distinct (map snd (min_dist_heap st)) \<and>
     heap_locations st \<inter> visited st = {} \<and>
     (\<forall>v \<in> seen st. in_bounds v dims \<and> reachable dims a v) \<and>
     a \<in> seen st \<and>
     (\<forall>v \<in> visited st. \<forall>m \<in> set movements.
        in_bounds (move_to v m) dims \<longrightarrow> (v, m) \<notin> F \<longrightarrow> move_to v m \<in> seen st) \<and>
     (\<forall>v \<in> seen st. cost_matrix st v = dist_from a v) \<and>
     (\<forall>e \<in> set (min_dist_heap st). fst e = dist_from a (snd e)) \<and>
     (\<forall>v. in_bounds v dims \<longrightarrow> v \<notin> seen st \<longrightarrow> cost_matrix st v = - 1) \<and>
     (\<forall>v \<in> seen st. v \<noteq> a \<longrightarrow>
        (\<exists>m bt c. (m, bt, c) \<in> set moves \<and> backtrace_matrix st v = bt \<and>
           (\<exists>p \<in> visited st. move_to p m = v \<and> dist_from a v = dist_from a p + c)))"

text \<open>The state after the loop body has found a new voxel \<open>n\<close> at cost \<open>k\<close>.\<close>

definition discover :: "coord \<Rightarrow> int \<Rightarrow> int \<Rightarrow> maze_state \<Rightarrow> maze_state" where
  "discover n k bt st =
     st\<lparr>cost_matrix := (cost_matrix st)(n := k),
        backtrace_matrix := (backtrace_matrix st)(n := bt),
        min_dist_heap := min_dist_heap st @ [(k, n)]\<rparr>"

section \<open>Rip-up loop: the re-routing pass of \<open>Router.re_route\<close>\<close>






section \<open>Net segmenter: \<open>Router.create_net_segments\<close>\<close>

text \<open>
  \<open>scipy.spatial.distance.cityblock\<close> is the sum of the absolute differences of the
  coordinates.
\<close>

definition cityblock :: "coord \<Rightarrow> coord \<Rightarrow> int" where
  "cityblock u v =
     (case u of (u_y, u_z, u_x) \<Rightarrow>
      case v of (v_y, v_z, v_x) \<Rightarrow> \<bar>u_y - v_y\<bar> + \<bar>u_z - v_z\<bar> + \<bar>u_x - v_x\<bar>)"

text \<open>
  The keys of the dictionary \<open>weights\<close>, in the order of their first insertion: the
  ordered pairs of different pins. \<open>sorted(weights, key=weights.get)\<close> enumerates the keys
  in the dictionary's own order, which Python 2 does not specify; that order is the
  parameter \<open>dict_order\<close>. The sort is stable.
\<close>

definition weights_keys :: "coord list \<Rightarrow> (coord \<times> coord) list" where
  "weights_keys net_pins =
     remdups [(pin, pin2). pin \<leftarrow> net_pins, pin2 \<leftarrow> net_pins, pin \<noteq> pin2]"

definition weights :: "coord \<times> coord \<Rightarrow> int" where
  "weights k = (case k of (pin, pin2) \<Rightarrow> cityblock pin pin2)"

text \<open>
  \<open>find_set\<close>: the index of the first set that holds \<open>u\<close>, or \<open>-1\<close>. The loop does
  not look into a pin, so its functions are typed for pins of any type.
\<close>

fun find_set_from :: "nat \<Rightarrow> 'a set list \<Rightarrow> 'a \<Rightarrow> int" where
  "find_set_from i [] u = - 1"
| "find_set_from i (s # sets) u = (if u \<in> s then int i else find_set_from (Suc i) sets u)"

definition find_set :: "'a set list \<Rightarrow> 'a \<Rightarrow> int" where
  "find_set sets u = find_set_from 0 sets u"

text \<open>
  A Python list index: \<open>-n \<le> i < n\<close> is valid on a list of length \<open>n\<close>, a negative one
  counting from the end.
\<close>

definition py_index :: "nat \<Rightarrow> int \<Rightarrow> nat option" where
  "py_index n i =
     (if 0 \<le> i \<and> i < int n then Some (nat i)
      else if - int n \<le> i \<and> i < 0 then Some (nat (i + int n))
      else None)"

text \<open>\<open>sets[v_i] |= sets[u_i]\<close> followed by \<open>sets.pop(u_i)\<close>.\<close>

definition union_sets :: "'a set list \<Rightarrow> int \<Rightarrow> int \<Rightarrow> error + 'a set list" where
  "union_sets sets u_i v_i =
     (case py_index (length sets) v_i of
        None \<Rightarrow> Inl IndexError
      | Some vi \<Rightarrow>
     (case py_index (length sets) u_i of
        None \<Rightarrow> Inl IndexError
      | Some ui \<Rightarrow>
          let sets1 = sets[vi := sets ! vi \<union> sets ! ui] in
          Inr (take ui sets1 @ drop (Suc ui) sets1)))"

text \<open>The body of the loop over the sorted keys.\<close>

definition kruskal_step ::
  "'a \<times> 'a \<Rightarrow> 'a set list \<times> ('a \<times> 'a) set \<Rightarrow> error + 'a set list \<times> ('a \<times> 'a) set" where
  "kruskal_step e st =
     (case e of (u, v) \<Rightarrow>
      case st of (sets, A) \<Rightarrow>
        let u_i = find_set sets u; v_i = find_set sets v in
        if u_i \<noteq> v_i
        then (case union_sets sets u_i v_i of
                Inl err \<Rightarrow> Inl err
              | Inr sets' \<Rightarrow> Inr (sets', insert (u, v) A))
        else Inr (sets, A))"

definition minimum_spanning_tree ::
  "((coord \<times> coord) list \<Rightarrow> (coord \<times> coord) list) \<Rightarrow> coord list \<Rightarrow>
   error + (coord \<times> coord) set" where
  "minimum_spanning_tree dict_order net_pins =
     (let sets = map (\<lambda>pin. {pin}) net_pins in
      map_sum id snd
        (fold_err kruskal_step (sort_key weights (dict_order (weights_keys net_pins)))
           (sets, {})))"

text \<open>
  \<open>create_net_segments\<close> leaves out the nets with fewer than two pins and gives every
  other net its tree.
\<close>

fun create_net_segments ::
  "((coord \<times> coord) list \<Rightarrow> (coord \<times> coord) list) \<Rightarrow> (string \<times> coord list) list \<Rightarrow>
   error + (string \<times> (coord \<times> coord) set) list" where
  "create_net_segments dict_order [] = Inr []"
| "create_net_segments dict_order ((net, pin_list) # pin_locations) =
     (if length pin_list < 2 then create_net_segments dict_order pin_locations
      else
        (case minimum_spanning_tree dict_order pin_list of
           Inl e \<Rightarrow> Inl e
         | Inr A \<Rightarrow>
        (case create_net_segments dict_order pin_locations of
           Inl e \<Rightarrow> Inl e
         | Inr net_segments \<Rightarrow> Inr ((net, A) # net_segments))))"

subsection \<open>Notions of the segmenter's specification\<close>

text \<open>
  An edge set is a set of ordered pairs read as undirected edges. Two vertices are
  linked (connected) when a path of edges, taken in either direction, joins them. An edge set is
  acyclic when every edge is a bridge: without it, its two ends are not linked (so
  it holds no loop and no edge twice). A spanning tree of the vertex set \<open>V\<close> joins
  vertices of \<open>V\<close>, connects all of them, is acyclic and has one edge less than \<open>V\<close> has
  vertices.
\<close>

definition linked :: "('a \<times> 'a) set \<Rightarrow> ('a \<times> 'a) set" where
  "linked A = (A \<union> A\<inverse>)\<^sup>*"

definition acyclic_edges :: "('a \<times> 'a) set \<Rightarrow> bool" where
  "acyclic_edges A \<longleftrightarrow> (\<forall>e \<in> A. e \<notin> linked (A - {e}))"

definition spanning_tree :: "coord set \<Rightarrow> (coord \<times> coord) set \<Rightarrow> bool" where
  "spanning_tree V A \<longleftrightarrow>
     A \<subseteq> V \<times> V \<and> (\<forall>u \<in> V. \<forall>v \<in> V. (u, v) \<in> linked A) \<and> acyclic_edges A \<and>
     card A = card V - 1"

definition total_weight :: "(coord \<times> coord) set \<Rightarrow> int" where
  "total_weight A = (\<Sum>e \<in> A. weights e)"

text \<open>
  Kruskal's algorithm as the textbooks give it: go through the edges of the complete
  graph by rising weight and keep an edge when its ends are not linked by the edges
  kept so far.
\<close>

definition kruskal_reference :: "coord list \<Rightarrow> (coord \<times> coord) set" where
  "kruskal_reference net_pins =
     fold (\<lambda>e A. if fst e = snd e \<or> e \<in> (A \<union> A\<inverse>)\<^sup>+ then A else insert e A)
       (sort_key weights (weights_keys net_pins)) {}"

subsection \<open>Notions of the segmenter's correctness proof\<close>

text \<open>
  The list \<open>sets\<close> as a partition of the pins, the invariant of the loop once the edges
  \<open>Es\<close> have been processed, and the linked components of a graph.
\<close>

definition same_set :: "'a set list \<Rightarrow> 'a \<Rightarrow> 'a \<Rightarrow> bool" where
  "same_set sets x y \<longleftrightarrow> (\<exists>s \<in> set sets. x \<in> s \<and> y \<in> s)"

definition partition_of :: "'a set \<Rightarrow> 'a set list \<Rightarrow> bool" where
  "partition_of V sets \<longleftrightarrow>
     \<Union>(set sets) = V \<and> distinct sets \<and> {} \<notin> set sets \<and>
     (\<forall>s \<in> set sets. \<forall>t \<in> set sets. s \<noteq> t \<longrightarrow> s \<inter> t = {})"

definition complete_edges :: "'a set \<Rightarrow> ('a \<times> 'a) set" where
  "complete_edges V = {(u, v). u \<in> V \<and> v \<in> V \<and> u \<noteq> v}"

definition kruskal_inv ::
  "'a set \<Rightarrow> ('a \<times> 'a) set \<Rightarrow> 'a set list \<times> ('a \<times> 'a) set \<Rightarrow> bool" where
  "kruskal_inv V Es st \<longleftrightarrow>
     (case st of (sets, A) \<Rightarrow>
        partition_of V sets \<and>
        (\<forall>x \<in> V. \<forall>y \<in> V. same_set sets x y \<longleftrightarrow> (x, y) \<in> linked A) \<and>
        (\<forall>x \<in> V. \<forall>y \<in> V. (x, y) \<in> linked A \<longleftrightarrow> (x, y) \<in> linked Es) \<and>
        A \<subseteq> Es \<and> Es \<subseteq> complete_edges V \<and> finite A \<and>
        card A + length sets = card V \<and> acyclic_edges A)"

definition classes :: "'a set \<Rightarrow> ('a \<times> 'a) set \<Rightarrow> 'a set set" where
  "classes V Es = (\<lambda>x. {y \<in> V. (x, y) \<in> linked Es}) ` V"

chapter \<open>Properties\<close>

section \<open>Properties of \<open>dumb_route\<close>\<close>

lemma length_upto_min_max: "length [min i j..max i j] = nat (\<bar>i - j\<bar> + 1)"
  by (simp add: min_def max_def)

lemma count_list_distinct:
  "distinct xs \<Longrightarrow> count_list xs v = (if v \<in> set xs then 1 else 0)"
  by (induction xs) auto

lemma count_list_upto:
  "count_list [i..j] (k::int) = (if i \<le> k \<and> k \<le> j then 1 else 0)"
  by (simp add: count_list_distinct)

text \<open>
  Claim C4, as stated, at the pins \<open>a = (0, 0, 0)\<close> and \<open>b = (0, 2, 3)\<close>: the path has
  seven voxels and not \<open>|ax - bx| + |az - bz| + 1 = 6\<close>, and the corner \<open>(0, 0, 3)\<close>
  is in it twice and not once.
\<close>

theorem dumb_route_length_counterexample:
  "length (dumb_route (0, 0, 0) (0, 2, 3)) \<noteq> nat (\<bar>0 - 3\<bar> + \<bar>0 - 2\<bar> + 1) \<and>
   count_list (dumb_route (0, 0, 0) (0, 2, 3)) (0, 0, 3) \<noteq> 1"
  by (simp add: dumb_route_def upto.simps)

text \<open>
  Claim C4, amended: for pins \<open>a\<close> and \<open>b\<close> on one y layer the path of \<open>dumb_route\<close>
  has \<open>|ax - bx| + |az - bz| + 2\<close> voxels, and the corner voxel \<open>(ay, az, bx)\<close> appears
  in it exactly twice: once at an end of the pass along x and once at an end of the
  pass along z.
\<close>

theorem dumb_route_length:
  assumes "a = (a_y, a_z, a_x)" and "b = (b_y, b_z, b_x)" and "a_y = b_y"
  shows "length (dumb_route a b) = nat (\<bar>a_x - b_x\<bar> + \<bar>a_z - b_z\<bar> + 2) \<and>
         count_list (dumb_route a b) (a_y, a_z, b_x) = 2"
proof -
  have len: "length (dumb_route a b) = nat (\<bar>a_x - b_x\<bar> + \<bar>a_z - b_z\<bar> + 2)"
    using assms by (simp add: dumb_route_def length_upto_min_max)
  have inj1: "inj (\<lambda>x. (a_y, a_z, x))" and inj2: "inj (\<lambda>z. (a_y, z, b_x))"
    by (auto simp: inj_def)
  have c1: "count_list (map (\<lambda>x. (a_y, a_z, x)) [min a_x b_x..max a_x b_x]) (a_y, a_z, b_x) = 1"
    using count_list_map_conv [OF inj1, of "[min a_x b_x..max a_x b_x]" b_x]
    by (simp add: count_list_upto)
  have c2: "count_list (map (\<lambda>z. (a_y, z, b_x)) [min a_z b_z..max a_z b_z]) (a_y, a_z, b_x) = 1"
    using count_list_map_conv [OF inj2, of "[min a_z b_z..max a_z b_z]" a_z]
    by (simp add: count_list_upto)
  have "count_list (dumb_route a b) (a_y, a_z, b_x) = 2"
    using assms c1 c2 by (simp add: dumb_route_def)
  with len show ?thesis by simp
qed

theorem dumb_route_length_witness:
  "length (dumb_route (0, 0, 0) (0, 2, 3)) = 7 \<and>
   count_list (dumb_route (0, 0, 0) (0, 2, 3)) (0, 0, 3) = 2"
  using dumb_route_length [of "(0, 0, 0)" 0 0 0 "(0, 2, 3)" 0 2 3] by simp

section \<open>Properties of the violation model\<close>

text \<open>
  Claim C8 on the code. The layout has the shape \<open>(2, 3, 3)\<close>; the segment runs from
  \<open>a = (1, 0, 0)\<close> to \<open>b = (1, 2, 0)\<close> along the face \<open>x = 0\<close>, on the path that
  \<open>dumb_route\<close> gives. The path voxel \<open>(1, 1, 0)\<close> is not a pin, and its neighbour
  \<open>(1, 1, -1)\<close> lies outside the grid. The index \<open>-1\<close> does not raise IndexError: it
  counts from the end, and the violation grid becomes true at \<open>(1, 1, 2)\<close>, a voxel
  that is no neighbour of any voxel of the path.
\<close>

theorem violation_negative_neighbour_wraps:
  "(case net_to_wire_and_violation 55 1 (Some (dumb_route (1, 0, 0) (1, 2, 0))) (2, 3, 3)
           [(1, 0, 0), (1, 2, 0)] of
      Inl e \<Rightarrow> False
    | Inr (wire, violation) \<Rightarrow>
        violation (1, 1, 2) \<and>
        (1, 1, 2) \<notin> set (concat (map violation_neighbours (dumb_route (1, 0, 0) (1, 2, 0)))))"
  by (simp add: net_to_wire_and_violation_def dumb_route_def upto.simps wire_step_def
      clear_step_def np_setitem_def np_index3_def np_index_def violation_neighbours_def
      violation_directions_def mark_violation_def)

section \<open>Properties of \<open>generate\<close>\<close>

lemma pick_cellB_terminates:
  "draws (k + j) mod n \<noteq> cellA \<Longrightarrow> \<exists>b. pick_cellB draws n cellA cellB k = Some b"
proof (induction j arbitrary: k cellB)
  case 0
  then show ?case
    by (subst pick_cellB.simps, subst pick_cellB.simps) simp
next
  case (Suc j)
  from Suc.prems have "draws (Suc k + j) mod n \<noteq> cellA" by simp
  from Suc.IH [OF this] show ?case
    by (subst pick_cellB.simps) simp
qed

lemma pick_cellB_Some_differs:
  assumes "pick_cellB draws n cellA cellB k = Some b"
  shows "\<not> (cellB = cellA \<and> (\<forall>j\<ge>k. draws j mod n = cellA))"
  using assms
proof (rule pick_cellB.raw_induct [rotated 1,
        where P = "\<lambda>draws n cellA cellB k b.
                     \<not> (cellB = cellA \<and> (\<forall>j\<ge>k. draws j mod n = cellA))"])
  fix pick draws n cellA cellB k b
  assume IH: "\<And>draws n cellA cellB k b. pick draws n cellA cellB k = Some b \<Longrightarrow>
              \<not> (cellB = cellA \<and> (\<forall>j\<ge>k. draws j mod n = cellA))"
    and step: "(if cellB = cellA then pick draws n cellA (draws k mod n) (Suc k)
                else Some cellB) = Some b"
  show "\<not> (cellB = cellA \<and> (\<forall>j\<ge>k. draws j mod n = cellA))"
  proof
    assume h: "cellB = cellA \<and> (\<forall>j\<ge>k. draws j mod n = cellA)"
    with step have "pick draws n cellA (draws k mod n) (Suc k) = Some b" by simp
    from IH [OF this] h show False by auto
  qed
qed

lemma pick_cellB_diverges:
  "\<forall>j\<ge>k. draws j mod n = cellA \<Longrightarrow> pick_cellB draws n cellA cellA k = None"
  using pick_cellB_Some_differs [of draws n cellA cellA k] by (cases "pick_cellB draws n cellA cellA k") auto

text \<open>
  Claim C7 on the code. With one cell, the default ratio 5 and the draw \<open>0.1\<close>, the
  branch that does not interchange is taken. There the method \<open>reorient\<close> raises
  ValueError, the error whose message reads "Method must be 'displace' or 'reorient'",
  while the method \<open>interchange\<close> is accepted.
\<close>

theorem generate_reorient_raises:
  "generate [\<lparr>p_name = ''AND'', p_placement = (0, 0, 0), p_turns = 0, p_pins = []\<rparr>]
      ''reorient'' 5 (\<lambda>k. 0) (1 / 10) = Some (Inl ValueError) \<and>
   generate [\<lparr>p_name = ''AND'', p_placement = (0, 0, 0), p_turns = 0, p_pins = []\<rparr>]
      ''interchange'' 5 (\<lambda>k. 0) (1 / 10) =
      Some (Inr [\<lparr>p_name = ''AND'', p_placement = (0, 0, 0), p_turns = 0, p_pins = []\<rparr>])"
  by (simp add: generate_def)

text \<open>
  Claim C10. The random picks are the sequence \<open>draws\<close>. On a placement with at least
  two entries \<open>generate\<close> returns as soon as one pick after the first differs from the
  cell picked first, which a uniform pick among two or more cells does with probability
  one; when the branch without interchange is taken it returns on every placement. On a
  placement with exactly one entry whose draw selects the interchange, every pick is that
  one cell and \<open>generate\<close> never returns, whatever the picks are.
\<close>

theorem generate_termination:
  "(2 \<le> length ps \<longrightarrow>
      (\<exists>k>0. draws k mod length ps \<noteq> draws 0 mod length ps) \<longrightarrow>
      generate ps method ratio draws r \<noteq> None) \<and>
   (\<not> (ratio \<noteq> 0 \<and> r > 1 / real_of_int ratio) \<longrightarrow>
      generate ps method ratio draws r \<noteq> None) \<and>
   (length ps = 1 \<longrightarrow> ratio \<noteq> 0 \<longrightarrow> r > 1 / real_of_int ratio \<longrightarrow>
      generate ps method ratio draws r = None)"
proof (intro conjI impI)
  assume "2 \<le> length ps" and "\<exists>k>0. draws k mod length ps \<noteq> draws 0 mod length ps"
  then obtain k where k: "0 < k" "draws k mod length ps \<noteq> draws 0 mod length ps" by blast
  then have "draws (1 + (k - 1)) mod length ps \<noteq> draws 0 mod length ps" by simp
  from pick_cellB_terminates [of draws 1 "k - 1" "length ps" "draws 0 mod length ps", OF this]
  obtain b where "pick_cellB draws (length ps) (draws 0 mod length ps)
                    (draws 0 mod length ps) 1 = Some b"
    by blast
  then show "generate ps method ratio draws r \<noteq> None"
    by (auto simp: generate_def Let_def)
next
  assume "\<not> (ratio \<noteq> 0 \<and> r > 1 / real_of_int ratio)"
  then show "generate ps method ratio draws r \<noteq> None"
    by (auto simp: generate_def Let_def)
next
  assume one: "length ps = 1" and ratio: "ratio \<noteq> 0" and r: "r > 1 / real_of_int ratio"
  have "\<forall>j\<ge>1. draws j mod length ps = draws 0 mod length ps"
    using one by simp
  from pick_cellB_diverges [OF this]
  have "pick_cellB draws (length ps) (draws 0 mod length ps) (draws 0 mod length ps) 1 = None" .
  moreover from one have "ps \<noteq> []" by auto
  ultimately show "generate ps method ratio draws r = None"
    using ratio r by (simp add: generate_def Let_def)
qed

theorem generate_termination_witness:
  "generate [\<lparr>p_name = ''AND'', p_placement = (0, 0, 0), p_turns = 0, p_pins = []\<rparr>,
             \<lparr>p_name = ''OR'', p_placement = (0, 0, 4), p_turns = 0, p_pins = []\<rparr>]
      ''displace'' 5 (\<lambda>k. k) (1 / 2) \<noteq> None \<and>
   generate [\<lparr>p_name = ''AND'', p_placement = (0, 0, 0), p_turns = 0, p_pins = []\<rparr>]
      ''displace'' 5 (\<lambda>k. k) (1 / 10) \<noteq> None \<and>
   generate [\<lparr>p_name = ''AND'', p_placement = (0, 0, 0), p_turns = 0, p_pins = []\<rparr>]
      ''displace'' 5 (\<lambda>k. k) (1 / 2) = None"
proof -
  let ?p = "\<lparr>p_name = ''AND'', p_placement = (0, 0, 0), p_turns = 0, p_pins = []\<rparr>"
  let ?q = "\<lparr>p_name = ''OR'', p_placement = (0, 0, 4), p_turns = 0, p_pins = []\<rparr>"
  have len: "2 \<le> length [?p, ?q]" by simp
  have ex: "\<exists>k>0. (\<lambda>k. k) k mod length [?p, ?q] \<noteq> (\<lambda>k. k) 0 mod length [?p, ?q]"
    by (rule exI [of _ 1]) simp
  have no: "\<not> ((5::int) \<noteq> 0 \<and> (1 / 10 :: real) > 1 / real_of_int 5)" by simp
  have one: "length [?p] = 1" and ratio: "(5::int) \<noteq> 0"
    and r: "(1 / 2 :: real) > 1 / real_of_int 5"
    by simp_all
  note thm2 = generate_termination [of "[?p, ?q]" "\<lambda>k. k" "''displace''" 5 "1 / 2"]
  note thm1 = generate_termination [of "[?p]" "\<lambda>k. k" "''displace''" 5 "1 / 10"]
  note thm0 = generate_termination [of "[?p]" "\<lambda>k. k" "''displace''" 5 "1 / 2"]
  from thm2 len ex have "generate [?p, ?q] ''displace'' 5 (\<lambda>k. k) (1 / 2) \<noteq> None"
    by blast
  moreover from thm1 no have "generate [?p] ''displace'' 5 (\<lambda>k. k) (1 / 10) \<noteq> None"
    by blast
  moreover from thm0 one ratio r have "generate [?p] ''displace'' 5 (\<lambda>k. k) (1 / 2) = None"
    by blast
  ultimately show ?thesis by blast
qed

section \<open>Properties of \<open>normalize_net_scores\<close>\<close>

text \<open>
  Claim C5 on the code. The scores \<open>1\<close> and \<open>2\<close> of one net are mapped to \<open>0.9\<close> and
  \<open>1.7\<close>: the scale \<open>0.8 / (max - min)\<close> multiplies the score itself and not its
  distance from the minimum, so the minimum is not sent to \<open>0.1\<close> and the maximum
  leaves the interval \<open>[0.1, 0.9]\<close> that the function's documentation names.
\<close>

theorem normalize_net_scores_not_min_max:
  "normalize_net_scores [(''n'', [1, 2])] (1 / 10) = Inr [(''n'', [9 / 10, 17 / 10])]"
  by (simp add: normalize_net_scores_def)

section \<open>Properties of the persistence of routings\<close>









section \<open>Properties of the maze router\<close>

subsection \<open>The table of movements\<close>

lemmas move_defs = EAST_def NORTH_def WEST_def SOUTH_def UP_def DOWN_def
  MOVE_EAST_def MOVE_NORTH_def MOVE_WEST_def MOVE_SOUTH_def MOVE_UP_def MOVE_DOWN_def

lemma moves_eq:
  "moves = [((0, 0, 1), 3, 1), ((0, 1, 0), 4, 1), ((0, 0, -1), 1, 1),
            ((0, -1, 0), 2, 1), ((3, 0, 0), 6, 3), ((-3, 0, 0), 5, 3)]"
  by (simp add: moves_def movements_def backtraces_def costs_def move_defs)

lemma movements_eq:
  "movements = [(0, 0, 1), (0, 1, 0), (0, 0, -1), (0, -1, 0), (3, 0, 0), (-3, 0, 0)]"
  by (simp add: movements_def move_defs)

lemma moves_cases:
  assumes "(m, bt, c) \<in> set moves"
  obtains "m = (0, 0, 1)" "bt = 3" "c = 1"
        | "m = (0, 1, 0)" "bt = 4" "c = 1"
        | "m = (0, 0, -1)" "bt = 1" "c = 1"
        | "m = (0, -1, 0)" "bt = 2" "c = 1"
        | "m = (3, 0, 0)" "bt = 6" "c = 3"
        | "m = (-3, 0, 0)" "bt = 5" "c = 3"
  using assms unfolding moves_eq by auto

lemma moves_movement: "(m, bt, c) \<in> set moves \<Longrightarrow> m \<in> set movements"
  unfolding moves_eq movements_eq by auto

lemma movement_moves: "m \<in> set movements \<Longrightarrow> \<exists>bt c. (m, bt, c) \<in> set moves"
  unfolding moves_eq movements_eq by auto

lemma moves_cost_pos: "(m, bt, c) \<in> set moves \<Longrightarrow> 0 < c"
  by (erule moves_cases) simp_all

lemma backtrace_of_move:
  assumes "(m, bt, c) \<in> set moves"
  shows "\<exists>i. list_index backtraces bt = Some i \<and>
             move_to (move_to p m) (backtrace_movements ! i) = p"
  using assms
  by (cases p, elim moves_cases)
     (simp_all add: backtraces_def backtrace_movements_def move_defs move_to_def)

lemma move_cost_back:
  assumes "(m, bt, c) \<in> set moves"
  shows "move_cost (move_to p m) p = Some c"
  using assms
  by (cases p, elim moves_cases)
     (simp_all add: move_cost_def movements_def costs_def move_defs move_to_def)

subsection \<open>Distances in a layout without obstacles\<close>

lemma dist_from_self [simp]: "dist_from a a = 0"
  by (cases a) (simp add: dist_from_def)

lemma dist_from_nonneg: "0 \<le> dist_from a v"
  by (cases a, cases v) (simp add: dist_from_def)

lemma dist_from_zero: "dist_from a v = 0 \<Longrightarrow> v = a"
  by (cases a, cases v) (auto simp: dist_from_def)

lemma same_layers_move:
  "same_layers a v \<Longrightarrow> m \<in> set movements \<Longrightarrow> same_layers a (move_to v m)"
  unfolding movements_eq
  by (cases a, cases v) (auto simp: same_layers_def move_to_def, presburger+)

lemma dist_from_move:
  assumes "same_layers a v" and "(m, bt, c) \<in> set moves"
  shows "dist_from a (move_to v m) = dist_from a v + c \<or>
         dist_from a (move_to v m) = dist_from a v - c"
proof -
  obtain a_y a_z a_x where a: "a = (a_y, a_z, a_x)" by (cases a)
  obtain y z x where v: "v = (y, z, x)" by (cases v)
  from assms(1) have d: "3 dvd (y - a_y)" by (simp add: same_layers_def a v)
  then have up: "\<bar>y + 3 - a_y\<bar> = \<bar>y - a_y\<bar> + 3 \<or> \<bar>y + 3 - a_y\<bar> = \<bar>y - a_y\<bar> - 3"
    and down: "\<bar>y - 3 - a_y\<bar> = \<bar>y - a_y\<bar> + 3 \<or> \<bar>y - 3 - a_y\<bar> = \<bar>y - a_y\<bar> - 3"
    by presburger+
  from assms(2) show ?thesis
  proof (cases rule: moves_cases)
    case 5
    then show ?thesis using up by (auto simp: dist_from_def move_to_def a v)
  next
    case 6
    then show ?thesis using down by (auto simp: dist_from_def move_to_def a v)
  qed (auto simp: dist_from_def move_to_def a v)
qed

lemma dist_from_move_le:
  assumes "same_layers a v" and "(m, bt, c) \<in> set moves"
  shows "dist_from a (move_to v m) \<le> dist_from a v + c"
  using dist_from_move [OF assms] moves_cost_pos [OF assms(2)] by auto

text \<open>Every voxel other than \<open>a\<close> on the layers of \<open>a\<close> has a neighbour nearer to \<open>a\<close>.\<close>

lemma nearer_neighbour:
  assumes "in_bounds a dims" and "in_bounds v dims" and "same_layers a v" and "v \<noteq> a"
  shows "\<exists>m bt c p. (m, bt, c) \<in> set moves \<and> in_bounds p dims \<and> same_layers a p \<and>
           move_to p m = v \<and> dist_from a v = dist_from a p + c"
proof -
  obtain a_y a_z a_x where a: "a = (a_y, a_z, a_x)" by (cases a)
  obtain y z x where v: "v = (y, z, x)" by (cases v)
  obtain h w l where dims: "dims = (h, w, l)" by (cases dims)
  from assms(3) have d: "3 dvd (y - a_y)" by (simp add: same_layers_def a v)
  note ib = assms(1,2) [unfolded in_bounds_def a v dims, simplified]
  from assms(4) have "a_x < x \<or> x < a_x \<or> (x = a_x \<and> a_z < z) \<or> (x = a_x \<and> z < a_z)
    \<or> (x = a_x \<and> z = a_z \<and> a_y < y) \<or> (x = a_x \<and> z = a_z \<and> y < a_y)"
    by (auto simp: a v)
  then consider "a_x < x" | "x < a_x" | "x = a_x" "a_z < z" | "x = a_x" "z < a_z"
    | "x = a_x" "z = a_z" "a_y < y" | "x = a_x" "z = a_z" "y < a_y"
    by blast
  then show ?thesis
  proof cases
    case 1
    have "((0, 0, 1), 3, 1) \<in> set moves \<and> in_bounds (y, z, x - 1) dims \<and>
          same_layers a (y, z, x - 1) \<and> move_to (y, z, x - 1) (0, 0, 1) = v \<and>
          dist_from a v = dist_from a (y, z, x - 1) + 1"
      using 1 ib d by (auto simp: moves_eq in_bounds_def dims same_layers_def a v move_to_def dist_from_def)
    then show ?thesis by blast
  next
    case 2
    have "((0, 0, -1), 1, 1) \<in> set moves \<and> in_bounds (y, z, x + 1) dims \<and>
          same_layers a (y, z, x + 1) \<and> move_to (y, z, x + 1) (0, 0, -1) = v \<and>
          dist_from a v = dist_from a (y, z, x + 1) + 1"
      using 2 ib d by (auto simp: moves_eq in_bounds_def dims same_layers_def a v move_to_def dist_from_def)
    then show ?thesis by blast
  next
    case 3
    have "((0, 1, 0), 4, 1) \<in> set moves \<and> in_bounds (y, z - 1, x) dims \<and>
          same_layers a (y, z - 1, x) \<and> move_to (y, z - 1, x) (0, 1, 0) = v \<and>
          dist_from a v = dist_from a (y, z - 1, x) + 1"
      using 3 ib d by (auto simp: moves_eq in_bounds_def dims same_layers_def a v move_to_def dist_from_def)
    then show ?thesis by blast
  next
    case 4
    have "((0, -1, 0), 2, 1) \<in> set moves \<and> in_bounds (y, z + 1, x) dims \<and>
          same_layers a (y, z + 1, x) \<and> move_to (y, z + 1, x) (0, -1, 0) = v \<and>
          dist_from a v = dist_from a (y, z + 1, x) + 1"
      using 4 ib d by (auto simp: moves_eq in_bounds_def dims same_layers_def a v move_to_def dist_from_def)
    then show ?thesis by blast
  next
    case 5
    with d have "a_y + 3 \<le> y" and "3 dvd (y - 3 - a_y)" by presburger+
    then have "((3, 0, 0), 6, 3) \<in> set moves \<and> in_bounds (y - 3, z, x) dims \<and>
          same_layers a (y - 3, z, x) \<and> move_to (y - 3, z, x) (3, 0, 0) = v \<and>
          dist_from a v = dist_from a (y - 3, z, x) + 3"
      using 5 ib d by (auto simp: moves_eq in_bounds_def dims same_layers_def a v move_to_def dist_from_def)
    then show ?thesis by blast
  next
    case 6
    with d have "y + 3 \<le> a_y" and "3 dvd (y + 3 - a_y)" by presburger+
    then have "((-3, 0, 0), 5, 3) \<in> set moves \<and> in_bounds (y + 3, z, x) dims \<and>
          same_layers a (y + 3, z, x) \<and> move_to (y + 3, z, x) (-3, 0, 0) = v \<and>
          dist_from a v = dist_from a (y + 3, z, x) + 3"
      using 6 ib d by (auto simp: moves_eq in_bounds_def dims same_layers_def a v move_to_def dist_from_def)
    then show ?thesis by blast
  qed
qed

lemma reachable_same_layers: "reachable dims a v \<Longrightarrow> same_layers a v"
proof (induction rule: reachable.induct)
  case reachable_start
  show ?case by (simp add: same_layers_def)
next
  case (reachable_move c m)
  then show ?case by (simp add: same_layers_move)
qed

lemma same_layers_reachable:
  assumes "in_bounds a dims"
  shows "in_bounds v dims \<Longrightarrow> same_layers a v \<Longrightarrow> reachable dims a v"
proof (induction "nat (dist_from a v)" arbitrary: v rule: less_induct)
  case less
  show ?case
  proof (cases "v = a")
    case True
    then show ?thesis by (simp add: reachable_start)
  next
    case False
    from nearer_neighbour [OF assms less.prems False]
    obtain m bt c p where p: "(m, bt, c) \<in> set moves" "in_bounds p dims" "same_layers a p"
        "move_to p m = v" "dist_from a v = dist_from a p + c"
      by blast
    have "nat (dist_from a p) < nat (dist_from a v)"
      using p(5) moves_cost_pos [OF p(1)] dist_from_nonneg [of a p] by simp
    from less.hyps [OF this p(2,3)] have "reachable dims a p" .
    from reachable_move [OF this moves_movement [OF p(1)]] p(4) less.prems(1)
    show ?thesis by simp
  qed
qed

lemma maze_cost_same_layers:
  assumes "same_layers a b"
  shows "maze_cost a b = dist_from a b"
proof -
  obtain a_y a_z a_x where a: "a = (a_y, a_z, a_x)" by (cases a)
  obtain b_y b_z b_x where b: "b = (b_y, b_z, b_x)" by (cases b)
  from assms have "3 dvd \<bar>b_y - a_y\<bar>" by (simp add: same_layers_def a b)
  then obtain k where k: "\<bar>b_y - a_y\<bar> = 3 * k" by (auto simp: dvd_def)
  have r: "real_of_int \<bar>b_y - a_y\<bar> = 3 * real_of_int k"
    by (simp only: k of_int_mult of_int_numeral)
  have ceil: "\<lceil>real_of_int \<bar>b_y - a_y\<bar> / 3\<rceil> = k"
    unfolding r by simp
  have "maze_cost a b = \<bar>b_z - a_z\<bar> + \<bar>b_x - a_x\<bar> + 3 * \<lceil>real_of_int \<bar>b_y - a_y\<bar> / 3\<rceil>"
    by (simp only: maze_cost_def a b prod.case)
  also have "\<dots> = \<bar>b_z - a_z\<bar> + \<bar>b_x - a_x\<bar> + 3 * k"
    by (simp only: ceil)
  also have "\<dots> = dist_from a b"
    using k by (simp add: dist_from_def a b)
  finally show ?thesis .
qed

subsection \<open>The steps of the search\<close>

lemma violating_free:
  assumes "violation_free a b dims usage_matrix" and "in_bounds c dims"
  shows "\<not> violating a b dims usage_matrix c"
  using assms unfolding violation_free_def by blast

lemma violation_free_empty: "violation_free a b dims (\<lambda>c. False)"
  by (simp add: violation_free_def violating_def list_ex_iff)

lemma np_index3_in_bounds: "in_bounds c dims \<Longrightarrow> np_index3 dims c = Some c"
  by (cases c, cases dims) (simp add: in_bounds_def np_index3_def np_index_def)

lemma np_canon_in_bounds: "in_bounds c dims \<Longrightarrow> np_canon dims c = c"
  by (simp add: np_canon_def np_index3_in_bounds)

lemma heappop_least:
  assumes "heap \<noteq> []" and "heappop heap = ((k, loc), heap')"
  shows "(k, loc) \<in> set heap" and "heap' = remove1 (k, loc) heap"
    and "\<forall>e \<in> set heap. k \<le> fst e"
proof -
  from assms(2) have m: "Min (set heap) = (k, loc)" and h: "heap' = remove1 (k, loc) heap"
    by (auto simp: heappop_def Let_def)
  from assms(1) have "Min (set heap) \<in> set heap" by (intro Min_in) simp_all
  with m show "(k, loc) \<in> set heap" by simp
  show "heap' = remove1 (k, loc) heap" by (rule h)
  show "\<forall>e \<in> set heap. k \<le> fst e"
  proof
    fix e assume "e \<in> set heap"
    then have "Min (set heap) \<le> e" by simp
    with m have "(k, loc) \<le> e" by simp
    then show "k \<le> fst e" by (auto simp: less_eq_prod_def)
  qed
qed

lemma visited_discover [simp]: "visited (discover n k bt st) = visited st"
  by (simp add: discover_def)

lemma heap_locations_discover [simp]:
  "heap_locations (discover n k bt st) = insert n (heap_locations st)"
  by (simp add: discover_def heap_locations_def)

lemma seen_discover [simp]: "seen (discover n k bt st) = insert n (seen st)"
  by (simp add: seen_def)

lemma cost_matrix_discover [simp]:
  "cost_matrix (discover n k bt st) = (cost_matrix st)(n := k)"
  by (simp add: discover_def)

lemma backtrace_matrix_discover [simp]:
  "backtrace_matrix (discover n k bt st) = (backtrace_matrix st)(n := bt)"
  by (simp add: discover_def)

lemma min_dist_heap_discover [simp]:
  "min_dist_heap (discover n k bt st) = min_dist_heap st @ [(k, n)]"
  by (simp add: discover_def)

text \<open>
  In a layout without obstacles, where the costs known so far are the distances, the loop
  body either finds a new voxel at its distance or leaves the state as it is.
\<close>

lemma relax_free:
  assumes free: "violation_free a b dims usage_matrix"
    and loc: "in_bounds loc dims" "same_layers a loc" "cost_matrix st loc = dist_from a loc"
    and m: "(m, bt, c) \<in> set moves"
    and heap: "\<forall>v \<in> heap_locations st. cost_matrix st v = dist_from a v"
    and unseen: "\<forall>v. in_bounds v dims \<longrightarrow> v \<notin> seen st \<longrightarrow> cost_matrix st v = - 1"
    and new: "in_bounds (move_to loc m) dims \<longrightarrow> move_to loc m \<notin> seen st \<longrightarrow>
                dist_from a (move_to loc m) = dist_from a loc + c"
  shows "relax a b dims usage_matrix loc (m, bt, c) st =
           (if in_bounds (move_to loc m) dims \<and> move_to loc m \<notin> seen st
            then discover (move_to loc m) (dist_from a (move_to loc m)) bt st
            else st)"
proof -
  let ?n = "move_to loc m"
  note nv = violating_free [OF free]
  note canon = np_canon_in_bounds [OF loc(1)]
  consider "\<not> in_bounds ?n dims" | "in_bounds ?n dims" "?n \<in> visited st"
    | "in_bounds ?n dims" "?n \<notin> visited st" "?n \<in> heap_locations st"
    | "in_bounds ?n dims" "?n \<notin> seen st"
    by (auto simp: seen_def)
  then show ?thesis
  proof cases
    case 1
    then show ?thesis by (simp add: relax_def)
  next
    case 2
    then show ?thesis by (simp add: relax_def seen_def)
  next
    case 3
    from 3(3) heap have cn: "cost_matrix st ?n = dist_from a ?n" by blast
    have "dist_from a ?n \<le> dist_from a loc + c"
      by (rule dist_from_move_le [OF loc(2) m])
    moreover have "0 \<le> dist_from a ?n" by (rule dist_from_nonneg)
    ultimately have keep: "\<not> (cost_matrix st ?n = - 1 \<or>
        cost_matrix st loc + c < cost_matrix st ?n)"
      using cn loc(3) by simp
    from 3(3) have "?n \<in> snd ` set (min_dist_heap st)" by (simp add: heap_locations_def)
    with 3 keep show ?thesis
      by (simp add: relax_def Let_def nv [OF 3(1)] canon seen_def)
  next
    case 4
    with unseen have cn: "cost_matrix st ?n = - 1" by blast
    from 4 new have d: "dist_from a ?n = dist_from a loc + c" by blast
    from 4(2) have nh: "?n \<notin> snd ` set (min_dist_heap st)" and nvis: "?n \<notin> visited st"
      by (simp_all add: seen_def heap_locations_def)
    show ?thesis
      using 4 cn d nh nvis loc(3)
      by (simp add: relax_def Let_def nv [OF 4(1)] canon discover_def)
  qed
qed

lemma maze_inv_weaken:
  "maze_inv a dims F st \<Longrightarrow> F \<subseteq> F' \<Longrightarrow> maze_inv a dims F' st"
  unfolding maze_inv_def by blast

lemma maze_inv_skip:
  assumes inv: "maze_inv a dims F st"
    and n: "in_bounds (move_to loc m) dims \<longrightarrow> move_to loc m \<in> seen st"
  shows "maze_inv a dims (F - {(loc, m)}) st"
proof -
  have "\<forall>v \<in> visited st. \<forall>m' \<in> set movements.
          in_bounds (move_to v m') dims \<longrightarrow> (v, m') \<notin> F - {(loc, m)} \<longrightarrow> move_to v m' \<in> seen st"
  proof (intro ballI impI)
    fix v m'
    assume v: "v \<in> visited st" "m' \<in> set movements" "in_bounds (move_to v m') dims"
      "(v, m') \<notin> F - {(loc, m)}"
    show "move_to v m' \<in> seen st"
    proof (cases "(v, m') = (loc, m)")
      case True
      with n v(3) show ?thesis by simp
    next
      case False
      with v(4) have "(v, m') \<notin> F" by blast
      with inv v(1-3) show ?thesis unfolding maze_inv_def by blast
    qed
  qed
  with inv show ?thesis unfolding maze_inv_def by blast
qed

lemma maze_inv_discover:
  assumes inv: "maze_inv a dims F st"
    and loc: "loc \<in> visited st"
    and m: "(m, bt, c) \<in> set moves"
    and n: "in_bounds (move_to loc m) dims" "move_to loc m \<notin> seen st"
    and d: "dist_from a (move_to loc m) = dist_from a loc + c"
  shows "maze_inv a dims (F - {(loc, m)})
           (discover (move_to loc m) (dist_from a (move_to loc m)) bt st)"
proof -
  let ?n = "move_to loc m"
  let ?st = "discover ?n (dist_from a ?n) bt st"
  from n(2) have nh: "?n \<notin> heap_locations st" and nv: "?n \<notin> visited st"
    by (simp_all add: seen_def)
  from inv have i1: "distinct (map snd (min_dist_heap st))"
    and i2: "heap_locations st \<inter> visited st = {}"
    and i3: "\<forall>v \<in> seen st. in_bounds v dims \<and> reachable dims a v"
    and i4: "a \<in> seen st"
    and i5: "\<forall>v \<in> visited st. \<forall>m \<in> set movements.
        in_bounds (move_to v m) dims \<longrightarrow> (v, m) \<notin> F \<longrightarrow> move_to v m \<in> seen st"
    and i6: "\<forall>v \<in> seen st. cost_matrix st v = dist_from a v"
    and i7: "\<forall>e \<in> set (min_dist_heap st). fst e = dist_from a (snd e)"
    and i8: "\<forall>v. in_bounds v dims \<longrightarrow> v \<notin> seen st \<longrightarrow> cost_matrix st v = - 1"
    and i9: "\<forall>v \<in> seen st. v \<noteq> a \<longrightarrow>
        (\<exists>m bt c. (m, bt, c) \<in> set moves \<and> backtrace_matrix st v = bt \<and>
           (\<exists>p \<in> visited st. move_to p m = v \<and> dist_from a v = dist_from a p + c))"
    unfolding maze_inv_def by blast+
  from loc have "loc \<in> seen st" by (simp add: seen_def)
  with i3 have rl: "reachable dims a loc" by blast
  have j1: "distinct (map snd (min_dist_heap ?st))"
    using i1 nh by (simp add: heap_locations_def)
  have j2: "heap_locations ?st \<inter> visited ?st = {}"
    using i2 nv by simp
  have j3: "\<forall>v \<in> seen ?st. in_bounds v dims \<and> reachable dims a v"
    using i3 n(1) reachable_move [OF rl moves_movement [OF m] n(1)] by simp
  have j4: "a \<in> seen ?st" using i4 by simp
  have j5: "\<forall>v \<in> visited ?st. \<forall>m' \<in> set movements.
        in_bounds (move_to v m') dims \<longrightarrow> (v, m') \<notin> F - {(loc, m)} \<longrightarrow>
        move_to v m' \<in> seen ?st"
  proof (intro ballI impI)
    fix v m'
    assume v: "v \<in> visited ?st" "m' \<in> set movements" "in_bounds (move_to v m') dims"
      "(v, m') \<notin> F - {(loc, m)}"
    show "move_to v m' \<in> seen ?st"
    proof (cases "(v, m') = (loc, m)")
      case True
      then show ?thesis by simp
    next
      case False
      with v(4) have "(v, m') \<notin> F" by blast
      with i5 v(1-3) have "move_to v m' \<in> seen st" by simp
      then show ?thesis by simp
    qed
  qed
  have j6: "\<forall>v \<in> seen ?st. cost_matrix ?st v = dist_from a v"
    using i6 by simp
  have j7: "\<forall>e \<in> set (min_dist_heap ?st). fst e = dist_from a (snd e)"
    using i7 by simp
  have j8: "\<forall>v. in_bounds v dims \<longrightarrow> v \<notin> seen ?st \<longrightarrow> cost_matrix ?st v = - 1"
    using i8 by simp
  have j9: "\<forall>v \<in> seen ?st. v \<noteq> a \<longrightarrow>
        (\<exists>m bt c. (m, bt, c) \<in> set moves \<and> backtrace_matrix ?st v = bt \<and>
           (\<exists>p \<in> visited ?st. move_to p m = v \<and> dist_from a v = dist_from a p + c))"
  proof (intro ballI impI)
    fix v assume v: "v \<in> seen ?st" "v \<noteq> a"
    show "\<exists>m bt c. (m, bt, c) \<in> set moves \<and> backtrace_matrix ?st v = bt \<and>
           (\<exists>p \<in> visited ?st. move_to p m = v \<and> dist_from a v = dist_from a p + c)"
    proof (cases "v = ?n")
      case True
      have "(m, bt, c) \<in> set moves \<and> backtrace_matrix ?st v = bt \<and>
           (\<exists>p \<in> visited ?st. move_to p m = v \<and> dist_from a v = dist_from a p + c)"
        using True m loc d by auto
      then show ?thesis by blast
    next
      case False
      with v have "v \<in> seen st" by simp
      with i9 v(2) obtain m' bt' c' where
        "(m', bt', c') \<in> set moves \<and> backtrace_matrix st v = bt' \<and>
           (\<exists>p \<in> visited st. move_to p m' = v \<and> dist_from a v = dist_from a p + c')"
        by blast
      with False have "(m', bt', c') \<in> set moves \<and> backtrace_matrix ?st v = bt' \<and>
           (\<exists>p \<in> visited ?st. move_to p m' = v \<and> dist_from a v = dist_from a p + c')"
        by simp
      then show ?thesis by blast
    qed
  qed
  show ?thesis
    unfolding maze_inv_def using j1 j2 j3 j4 j5 j6 j7 j8 j9 by blast
qed

lemma heap_locations_remove1:
  assumes "distinct (map snd heap)" and "(k, loc) \<in> set heap"
  shows "snd ` set (remove1 (k, loc) heap) = snd ` set heap - {loc}"
proof -
  from assms(1) have d: "distinct heap" and inj: "inj_on snd (set heap)"
    by (simp_all add: distinct_map)
  from d have "set (remove1 (k, loc) heap) = set heap - {(k, loc)}" by simp
  moreover have "snd ` (set heap - {(k, loc)}) = snd ` set heap - snd ` {(k, loc)}"
    using inj assms(2) by (intro inj_on_image_set_diff [of snd "set heap"]) auto
  ultimately show ?thesis by simp
qed

lemma maze_inv_pop:
  assumes inv: "maze_inv a dims {} st"
    and ne: "min_dist_heap st \<noteq> []"
    and pop: "heappop (min_dist_heap st) = ((k, loc), heap')"
    and st': "st' = st\<lparr>min_dist_heap := heap', visited := insert loc (visited st)\<rparr>"
  shows "maze_inv a dims ({loc} \<times> set movements) st'"
    and "seen st' = seen st"
    and "loc \<notin> visited st"
    and "in_bounds loc dims"
    and "visited st' = insert loc (visited st)"
    and "\<forall>v \<in> heap_locations st. dist_from a loc \<le> dist_from a v"
proof -
  note least = heappop_least [OF ne pop]
  from inv have i1: "distinct (map snd (min_dist_heap st))"
    and i2: "heap_locations st \<inter> visited st = {}"
    and i3: "\<forall>v \<in> seen st. in_bounds v dims \<and> reachable dims a v"
    and i4: "a \<in> seen st"
    and i5: "\<forall>v \<in> visited st. \<forall>m \<in> set movements.
        in_bounds (move_to v m) dims \<longrightarrow> (v, m) \<notin> {} \<longrightarrow> move_to v m \<in> seen st"
    and i6: "\<forall>v \<in> seen st. cost_matrix st v = dist_from a v"
    and i7: "\<forall>e \<in> set (min_dist_heap st). fst e = dist_from a (snd e)"
    and i8: "\<forall>v. in_bounds v dims \<longrightarrow> v \<notin> seen st \<longrightarrow> cost_matrix st v = - 1"
    and i9: "\<forall>v \<in> seen st. v \<noteq> a \<longrightarrow>
        (\<exists>m bt c. (m, bt, c) \<in> set moves \<and> backtrace_matrix st v = bt \<and>
           (\<exists>p \<in> visited st. move_to p m = v \<and> dist_from a v = dist_from a p + c))"
    unfolding maze_inv_def by blast+
  from least(1) have lh: "loc \<in> heap_locations st"
    by (force simp: heap_locations_def)
  with i2 show nv: "loc \<notin> visited st" by blast
  from lh i3 show "in_bounds loc dims" by (simp add: seen_def)
  show vis: "visited st' = insert loc (visited st)" by (simp add: st')
  have hl: "heap_locations st' = heap_locations st - {loc}"
    using heap_locations_remove1 [OF i1 least(1)] least(2)
    by (simp add: st' heap_locations_def)
  with lh vis show seen: "seen st' = seen st" by (auto simp: seen_def)
  from least(1) i7 have k: "k = dist_from a loc" by force
  show "\<forall>v \<in> heap_locations st. dist_from a loc \<le> dist_from a v"
  proof
    fix v assume "v \<in> heap_locations st"
    then obtain e where e: "e \<in> set (min_dist_heap st)" "snd e = v"
      by (auto simp: heap_locations_def)
    with least(3) i7 k show "dist_from a loc \<le> dist_from a v" by force
  qed
  have c: "cost_matrix st' = cost_matrix st" and b: "backtrace_matrix st' = backtrace_matrix st"
    by (simp_all add: st')
  have j1: "distinct (map snd (min_dist_heap st'))"
    using i1 least(2) by (simp add: st' distinct_map distinct_remove1 inj_on_def)
  have j2: "heap_locations st' \<inter> visited st' = {}"
    using i2 hl vis by auto
  have j5: "\<forall>v \<in> visited st'. \<forall>m \<in> set movements.
        in_bounds (move_to v m) dims \<longrightarrow> (v, m) \<notin> {loc} \<times> set movements \<longrightarrow>
        move_to v m \<in> seen st'"
    using i5 vis seen by auto
  have j7: "\<forall>e \<in> set (min_dist_heap st'). fst e = dist_from a (snd e)"
    using i7 least(2) by (auto simp: st' dest: notin_set_remove1)
  have j9: "\<forall>v \<in> seen st'. v \<noteq> a \<longrightarrow>
        (\<exists>m bt c. (m, bt, c) \<in> set moves \<and> backtrace_matrix st' v = bt \<and>
           (\<exists>p \<in> visited st'. move_to p m = v \<and> dist_from a v = dist_from a p + c))"
    using i9 unfolding seen b vis by blast
  show "maze_inv a dims ({loc} \<times> set movements) st'"
    unfolding maze_inv_def using j1 j2 i3 i4 j5 i6 j7 i8 j9 unfolding seen c by blast
qed

text \<open>
  A voxel on the layers of \<open>a\<close> that the search has not seen is farther from \<open>a\<close> than
  some voxel waiting in the heap.
\<close>

lemma unseen_farther:
  assumes a: "in_bounds a dims" and inv: "maze_inv a dims {} st"
  shows "in_bounds v dims \<Longrightarrow> same_layers a v \<Longrightarrow> v \<notin> seen st \<Longrightarrow>
         \<exists>x \<in> heap_locations st. dist_from a x < dist_from a v"
proof (induction "nat (dist_from a v)" arbitrary: v rule: less_induct)
  case less
  from inv have i4: "a \<in> seen st"
    and i5: "\<forall>v \<in> visited st. \<forall>m \<in> set movements.
        in_bounds (move_to v m) dims \<longrightarrow> move_to v m \<in> seen st"
    unfolding maze_inv_def by blast+
  from i4 less.prems(3) have "v \<noteq> a" by blast
  from nearer_neighbour [OF a less.prems(1,2) this]
  obtain m bt c p where p: "(m, bt, c) \<in> set moves" "in_bounds p dims" "same_layers a p"
      "move_to p m = v" "dist_from a v = dist_from a p + c"
    by blast
  have lt: "dist_from a p < dist_from a v"
    using p(5) moves_cost_pos [OF p(1)] by simp
  have "p \<notin> visited st"
  proof
    assume "p \<in> visited st"
    with i5 moves_movement [OF p(1)] less.prems(1) p(4) have "v \<in> seen st" by blast
    with less.prems(3) show False by simp
  qed
  then consider "p \<in> heap_locations st" | "p \<notin> seen st"
    by (auto simp: seen_def)
  then show ?case
  proof cases
    case 1
    with lt show ?thesis by blast
  next
    case 2
    have "nat (dist_from a p) < nat (dist_from a v)"
      using lt dist_from_nonneg [of a p] by simp
    from less.hyps [OF this p(2,3) 2]
    obtain x where x: "x \<in> heap_locations st" "dist_from a x < dist_from a p" by blast
    from x(2) lt have "dist_from a x < dist_from a v" by linarith
    with x(1) show ?thesis by blast
  qed
qed

lemma fold_relax_inv:
  assumes free: "violation_free a b dims usage_matrix"
    and loc: "in_bounds loc dims" "same_layers a loc"
    and new: "\<forall>(m, bt, c) \<in> set moves. in_bounds (move_to loc m) dims \<longrightarrow>
                move_to loc m \<notin> S \<longrightarrow> dist_from a (move_to loc m) = dist_from a loc + c"
  shows "set ms \<subseteq> set moves \<Longrightarrow> maze_inv a dims (F \<union> {loc} \<times> fst ` set ms) st \<Longrightarrow>
         loc \<in> visited st \<Longrightarrow> S \<subseteq> seen st \<Longrightarrow>
         maze_inv a dims F (fold (relax a b dims usage_matrix loc) ms st) \<and>
         visited (fold (relax a b dims usage_matrix loc) ms st) = visited st"
proof (induction ms arbitrary: st)
  case Nil
  then show ?case by simp
next
  case (Cons mm ms)
  obtain m bt c where mm: "mm = (m, bt, c)" by (cases mm)
  let ?F = "F \<union> {loc} \<times> fst ` set (mm # ms)"
  let ?n = "move_to loc m"
  from Cons.prems(1) mm have m: "(m, bt, c) \<in> set moves" and ms: "set ms \<subseteq> set moves"
    by simp_all
  note inv = Cons.prems(2)
  from inv have i6: "\<forall>v \<in> seen st. cost_matrix st v = dist_from a v"
    and i8: "\<forall>v. in_bounds v dims \<longrightarrow> v \<notin> seen st \<longrightarrow> cost_matrix st v = - 1"
    unfolding maze_inv_def by blast+
  from Cons.prems(3) have ls: "loc \<in> seen st" by (simp add: seen_def)
  with i6 have cl: "cost_matrix st loc = dist_from a loc" by blast
  from i6 have ch: "\<forall>v \<in> heap_locations st. cost_matrix st v = dist_from a v"
    by (simp add: seen_def)
  have nw: "in_bounds ?n dims \<longrightarrow> ?n \<notin> seen st \<longrightarrow> dist_from a ?n = dist_from a loc + c"
    using new m Cons.prems(4) by blast
  let ?st1 = "relax a b dims usage_matrix loc (m, bt, c) st"
  note eq = relax_free [OF free loc cl m ch i8 nw]
  have sub: "?F - {(loc, m)} \<subseteq> F \<union> {loc} \<times> fst ` set ms"
    by (auto simp: mm)
  have st1: "maze_inv a dims (F \<union> {loc} \<times> fst ` set ms) ?st1 \<and> visited ?st1 = visited st \<and>
             seen st \<subseteq> seen ?st1"
  proof (cases "in_bounds ?n dims \<and> ?n \<notin> seen st")
    case True
    with nw have d: "dist_from a ?n = dist_from a loc + c" by blast
    from True maze_inv_discover [OF inv Cons.prems(3) m _ _ d]
    have "maze_inv a dims (?F - {(loc, m)}) (discover ?n (dist_from a ?n) bt st)" by blast
    from maze_inv_weaken [OF this sub] True show ?thesis
      by (auto simp: eq)
  next
    case False
    then have "in_bounds ?n dims \<longrightarrow> ?n \<in> seen st" by blast
    from maze_inv_skip [OF inv this]
    have "maze_inv a dims (?F - {(loc, m)}) st" .
    from maze_inv_weaken [OF this sub] False show ?thesis
      by (auto simp: eq)
  qed
  then have "S \<subseteq> seen ?st1" and "loc \<in> visited ?st1"
    using Cons.prems(3,4) by auto
  from Cons.IH [OF ms _ this(2,1)] st1 show ?case
    by (simp add: mm)
qed

lemma maze_step_inv:
  assumes free: "violation_free a b dims usage_matrix"
    and a: "in_bounds a dims"
    and inv: "maze_inv a dims {} st"
    and ne: "min_dist_heap st \<noteq> []"
  shows "maze_inv a dims {} (maze_step a b dims usage_matrix st)"
    and "\<exists>loc. in_bounds loc dims \<and> loc \<notin> visited st \<and>
           visited (maze_step a b dims usage_matrix st) = insert loc (visited st)"
proof -
  obtain k loc heap' where pop: "heappop (min_dist_heap st) = ((k, loc), heap')"
    by (metis prod.exhaust)
  define st' where "st' = st\<lparr>min_dist_heap := heap', visited := insert loc (visited st)\<rparr>"
  note p = maze_inv_pop [OF inv ne pop st'_def]
  from p(1) have r: "\<forall>v \<in> seen st'. in_bounds v dims \<and> reachable dims a v"
    unfolding maze_inv_def by blast
  from p(5) have lv: "loc \<in> visited st'" by simp
  then have "loc \<in> seen st'" by (simp add: seen_def)
  with r have sl: "same_layers a loc" by (blast intro: reachable_same_layers)
  have new: "\<forall>(m, bt, c) \<in> set moves. in_bounds (move_to loc m) dims \<longrightarrow>
                move_to loc m \<notin> seen st \<longrightarrow>
                dist_from a (move_to loc m) = dist_from a loc + c"
  proof (intro ballI, clarify)
    fix m bt c
    assume m: "(m, bt, c) \<in> set moves" and ib: "in_bounds (move_to loc m) dims"
      and ns: "move_to loc m \<notin> seen st"
    have "same_layers a (move_to loc m)"
      by (rule same_layers_move [OF sl moves_movement [OF m]])
    from unseen_farther [OF a inv ib this ns] p(6)
    have "dist_from a loc < dist_from a (move_to loc m)" by force
    with dist_from_move [OF sl m] moves_cost_pos [OF m]
    show "dist_from a (move_to loc m) = dist_from a loc + c" by linarith
  qed
  have F: "fst ` set moves = set movements"
    by (simp add: moves_def movements_def backtraces_def costs_def)
  have step: "maze_step a b dims usage_matrix st =
                fold (relax a b dims usage_matrix loc) moves st'"
    by (simp add: maze_step_def pop st'_def moves_def)
  from fold_relax_inv [OF free p(4) sl new, of moves "{}" st'] p(1,2) lv
  have "maze_inv a dims {} (fold (relax a b dims usage_matrix loc) moves st') \<and>
        visited (fold (relax a b dims usage_matrix loc) moves st') = visited st'"
    by (simp add: F)
  then have res: "maze_inv a dims {} (maze_step a b dims usage_matrix st)"
    "visited (maze_step a b dims usage_matrix st) = insert loc (visited st)"
    using p(5) by (simp_all add: step)
  show "maze_inv a dims {} (maze_step a b dims usage_matrix st)" by (rule res(1))
  from p(3,4) res(2)
  show "\<exists>loc. in_bounds loc dims \<and> loc \<notin> visited st \<and>
           visited (maze_step a b dims usage_matrix st) = insert loc (visited st)"
    by blast
qed

subsection \<open>The search ends, and what it has found then\<close>

lemma finite_in_bounds: "finite {v. in_bounds v dims}"
proof -
  obtain h w l where dims: "dims = (h, w, l)" by (cases dims)
  have "{v. in_bounds v dims} \<subseteq> {0..<h} \<times> {0..<w} \<times> {0..<l}"
    by (auto simp: in_bounds_def dims)
  then show ?thesis by (rule finite_subset) simp
qed

lemma maze_loop_total:
  assumes free: "violation_free a b dims usage_matrix" and a: "in_bounds a dims"
  shows "maze_inv a dims {} st \<Longrightarrow>
         \<exists>st'. maze_loop a b dims usage_matrix st = Some st' \<and> maze_inv a dims {} st' \<and>
               min_dist_heap st' = []"
proof (induction "card ({v. in_bounds v dims} - visited st)" arbitrary: st rule: less_induct)
  case less
  show ?case
  proof (cases "min_dist_heap st = []")
    case True
    with less.prems show ?thesis
      by (subst maze_loop.simps) simp
  next
    case False
    let ?st = "maze_step a b dims usage_matrix st"
    note step = maze_step_inv [OF free a less.prems False]
    from step(2) obtain loc where loc: "in_bounds loc dims" "loc \<notin> visited st"
        "visited ?st = insert loc (visited st)"
      by blast
    have fin: "finite ({v. in_bounds v dims} - visited st)"
      using finite_in_bounds by simp
    have "{v. in_bounds v dims} - visited ?st \<subset> {v. in_bounds v dims} - visited st"
      using loc by auto
    with fin have "card ({v. in_bounds v dims} - visited ?st)
                     < card ({v. in_bounds v dims} - visited st)"
      by (rule psubset_card_mono)
    from less.hyps [OF this step(1)] False show ?thesis
      by (subst maze_loop.simps) simp
  qed
qed

lemma maze_inv_initial:
  assumes "in_bounds a dims"
  shows "maze_inv a dims {}
           \<lparr>visited = {}, min_dist_heap = [(0, a)], cost_matrix = (\<lambda>c. - 1)(a := 0),
            backtrace_matrix = (\<lambda>c. 0)\<rparr>"
  using assms
  by (simp add: maze_inv_def seen_def heap_locations_def reachable_start)

lemma maze_search_total:
  assumes free: "violation_free a b dims usage_matrix" and a: "in_bounds a dims"
  shows "\<exists>st. maze_search a b dims usage_matrix = Some (Inr st) \<and> maze_inv a dims {} st \<and>
              min_dist_heap st = []"
proof -
  from maze_loop_total [OF free a maze_inv_initial [OF a]]
  show ?thesis
    by (auto simp: maze_search_def np_setitem_def np_index3_in_bounds [OF a])
qed

lemma visited_final:
  assumes inv: "maze_inv a dims {} st" and e: "min_dist_heap st = []"
  shows "v \<in> visited st \<longleftrightarrow> reachable dims a v"
proof
  assume "v \<in> visited st"
  with inv show "reachable dims a v"
    unfolding maze_inv_def seen_def by blast
next
  from e have s: "seen st = visited st" by (simp add: seen_def heap_locations_def)
  assume "reachable dims a v"
  then show "v \<in> visited st"
  proof (induction rule: reachable.induct)
    case reachable_start
    from inv s show ?case unfolding maze_inv_def by blast
  next
    case (reachable_move c m)
    with inv s show ?case unfolding maze_inv_def by blast
  qed
qed

lemma backtrace_loop_path:
  assumes inv: "maze_inv a dims {} st" and e: "min_dist_heap st = []"
  shows "v \<in> visited st \<Longrightarrow>
         \<exists>p. backtrace_loop dims (backtrace_matrix st) a (pre @ [v]) = Some (Inr (pre @ v # p)) \<and>
             last (v # p) = a \<and> path_cost (v # p) = Some (dist_from a v)"
proof (induction "nat (dist_from a v)" arbitrary: v pre rule: less_induct)
  case less
  from e have s: "seen st = visited st" by (simp add: seen_def heap_locations_def)
  show ?case
  proof (cases "v = a")
    case True
    have "backtrace_loop dims (backtrace_matrix st) a (pre @ [v]) = Some (Inr (pre @ [v])) \<and>
          last [v] = a \<and> path_cost [v] = Some (dist_from a v)"
      using True by (subst backtrace_loop.simps) simp
    then show ?thesis by blast
  next
    case False
    from inv s less.prems False obtain m bt c q where
      m: "(m, bt, c) \<in> set moves" and bt: "backtrace_matrix st v = bt"
      and q: "q \<in> visited st" "move_to q m = v" "dist_from a v = dist_from a q + c"
      unfolding maze_inv_def by blast
    from inv s less.prems have ib: "in_bounds v dims"
      unfolding maze_inv_def by blast
    from backtrace_of_move [OF m, of q] q(2)
    obtain i where i: "list_index backtraces bt = Some i"
        "move_to v (backtrace_movements ! i) = q"
      by auto
    have "nat (dist_from a q) < nat (dist_from a v)"
      using q(3) moves_cost_pos [OF m] dist_from_nonneg [of a q] by simp
    from less.hyps [OF this q(1), of "pre @ [v]"]
    obtain p where p:
      "backtrace_loop dims (backtrace_matrix st) a ((pre @ [v]) @ [q]) =
         Some (Inr ((pre @ [v]) @ q # p))"
      "last (q # p) = a" "path_cost (q # p) = Some (dist_from a q)"
      by blast
    have "backtrace_loop dims (backtrace_matrix st) a (pre @ [v]) =
            Some (Inr (pre @ v # q # p))"
      using False p(1) bt i
      by (subst backtrace_loop.simps) (simp add: np_getitem_def np_index3_in_bounds [OF ib])
    moreover have "last (v # q # p) = a" using p(2) by simp
    moreover have "path_cost (v # q # p) = Some (dist_from a v)"
      using move_cost_back [OF m, of q] q(2,3) p(3) by simp
    ultimately show ?thesis by blast
  qed
qed

lemma maze_route_unreachable:
  assumes free: "violation_free a b dims usage_matrix" and a: "in_bounds a dims"
    and b: "\<not> reachable dims a b"
  shows "maze_route a b dims usage_matrix = Some (Inr None)"
proof -
  from maze_search_total [OF free a]
  obtain st where st: "maze_search a b dims usage_matrix = Some (Inr st)"
      "maze_inv a dims {} st" "min_dist_heap st = []"
    by blast
  from visited_final [OF st(2,3), of b] b have "b \<notin> visited st" by simp
  with st(1) show ?thesis by (simp add: maze_route_def)
qed

lemma maze_route_reachable:
  assumes free: "violation_free a b dims usage_matrix" and a: "in_bounds a dims"
    and b: "reachable dims a b"
  shows "\<exists>net st. maze_search a b dims usage_matrix = Some (Inr st) \<and>
           cost_matrix st b = maze_cost a b \<and>
           maze_route a b dims usage_matrix = Some (Inr (Some net)) \<and>
           hd net = b \<and> last net = a \<and> path_cost net = Some (maze_cost a b)"
proof -
  from maze_search_total [OF free a]
  obtain st where st: "maze_search a b dims usage_matrix = Some (Inr st)"
      "maze_inv a dims {} st" "min_dist_heap st = []"
    by blast
  from visited_final [OF st(2,3), of b] b have bv: "b \<in> visited st" by simp
  have mc: "maze_cost a b = dist_from a b"
    by (rule maze_cost_same_layers [OF reachable_same_layers [OF b]])
  from st(2) bv have cost: "cost_matrix st b = dist_from a b"
    unfolding maze_inv_def seen_def by blast
  from backtrace_loop_path [OF st(2,3) bv, of "[]"]
  obtain p where p: "backtrace_loop dims (backtrace_matrix st) a [b] = Some (Inr (b # p))"
      "last (b # p) = a" "path_cost (b # p) = Some (dist_from a b)"
    by auto
  have "maze_route a b dims usage_matrix = Some (Inr (Some (b # p)))"
    using st(1) bv p(1) by (simp add: maze_route_def)
  with st(1) cost p(2,3) mc show ?thesis by auto
qed

text \<open>
  Claim C1. In a layout where no voxel is violating, with \<open>a\<close> a voxel of the layout:
  when \<open>b\<close> is reachable from \<open>a\<close> by the six moves, the search ends with the cost
  \<open>|\<Delta>z| + |\<Delta>x| + 3 \<lceil>|\<Delta>y| / 3\<rceil>\<close> in the cost matrix at \<open>b\<close>, and \<open>maze_route\<close>
  returns a path from \<open>b\<close> back to \<open>a\<close> made of moves whose costs add up to the same
  number; when \<open>b\<close> is not reachable, \<open>maze_route\<close> returns \<open>None\<close>.
\<close>

theorem maze_route_optimal:
  assumes "violation_free a b dims usage_matrix" and "in_bounds a dims"
  shows "(reachable dims a b \<longrightarrow>
            (\<exists>net st. maze_search a b dims usage_matrix = Some (Inr st) \<and>
               cost_matrix st b = maze_cost a b \<and>
               maze_route a b dims usage_matrix = Some (Inr (Some net)) \<and>
               hd net = b \<and> last net = a \<and> path_cost net = Some (maze_cost a b))) \<and>
         (\<not> reachable dims a b \<longrightarrow> maze_route a b dims usage_matrix = Some (Inr None))"
  using maze_route_reachable [OF assms] maze_route_unreachable [OF assms] by blast

theorem maze_route_optimal_witness:
  "(\<exists>net st. maze_search (0, 0, 0) (3, 1, 1) (4, 2, 2) (\<lambda>c. False) = Some (Inr st) \<and>
      cost_matrix st (3, 1, 1) = 5 \<and>
      maze_route (0, 0, 0) (3, 1, 1) (4, 2, 2) (\<lambda>c. False) = Some (Inr (Some net)) \<and>
      hd net = (3, 1, 1) \<and> last net = (0, 0, 0) \<and> path_cost net = Some 5) \<and>
   maze_route (0, 0, 0) (1, 0, 0) (4, 2, 2) (\<lambda>c. False) = Some (Inr None)"
proof -
  have a: "in_bounds (0, 0, 0) (4, 2, 2)" by (simp add: in_bounds_def)
  have "reachable (4, 2, 2) (0, 0, 0) (3, 1, 1)"
    by (rule same_layers_reachable [OF a]) (simp_all add: in_bounds_def same_layers_def)
  moreover have "\<not> reachable (4, 2, 2) (0, 0, 0) (1, 0, 0)"
    using reachable_same_layers [of "(4, 2, 2)" "(0, 0, 0)" "(1, 0, 0)"]
    by (auto simp: same_layers_def)
  moreover have "maze_cost (0, 0, 0) (3, 1, 1) = 5"
    by (simp add: maze_cost_def)
  ultimately show ?thesis
    using maze_route_optimal [OF violation_free_empty a, of "(3, 1, 1)"]
      maze_route_optimal [OF violation_free_empty a, of "(1, 0, 0)"]
    by simp
qed

section \<open>Properties of the re-routing pass\<close>


section \<open>Properties of the net segmenter\<close>

subsection \<open>Connectedness\<close>

lemma linked_refl [simp]: "(x, x) \<in> linked A"
  by (simp add: linked_def)

lemma linked_sym: "(x, y) \<in> linked A \<Longrightarrow> (y, x) \<in> linked A"
proof -
  have "sym (A \<union> A\<inverse>)" by (auto simp: sym_def)
  then have "sym ((A \<union> A\<inverse>)\<^sup>*)" by (rule sym_rtrancl)
  then show "(x, y) \<in> linked A \<Longrightarrow> (y, x) \<in> linked A"
    unfolding linked_def by (rule symD)
qed

lemma linked_trans:
  "(x, y) \<in> linked A \<Longrightarrow> (y, z) \<in> linked A \<Longrightarrow> (x, z) \<in> linked A"
  by (auto simp: linked_def)

lemma linked_mono: "A \<subseteq> B \<Longrightarrow> linked A \<subseteq> linked B"
  unfolding linked_def by (intro rtrancl_mono) auto

lemma linked_edge: "(u, v) \<in> A \<Longrightarrow> (u, v) \<in> linked A"
  by (auto simp: linked_def)

lemma linked_insert:
  "(x, y) \<in> linked (insert (u, v) A) \<longleftrightarrow>
     (x, y) \<in> linked A \<or> ((x, u) \<in> linked A \<and> (v, y) \<in> linked A) \<or>
     ((x, v) \<in> linked A \<and> (u, y) \<in> linked A)"
    (is "?l \<longleftrightarrow> ?r x y")
proof
  assume ?l
  then have "(x, y) \<in> (insert (u, v) A \<union> (insert (u, v) A)\<inverse>)\<^sup>*"
    by (simp add: linked_def)
  then show "?r x y"
  proof (induction rule: rtrancl_induct)
    case base
    show ?case by simp
  next
    case (step y z)
    from step.hyps(2) consider "(y, z) \<in> A \<union> A\<inverse>" | "y = u" "z = v" | "y = v" "z = u"
      by auto
    then show ?case
    proof cases
      case 1
      then have yz: "(y, z) \<in> linked A" by (auto simp: linked_def)
      from step.IH show ?thesis
        using linked_trans [OF _ yz] by blast
    next
      case 2
      with step.IH show ?thesis
        using linked_trans [of x v A u] linked_refl [of v A] by blast
    next
      case 3
      with step.IH show ?thesis
        using linked_trans [of x u A v] linked_refl [of u A] by blast
    qed
  qed
next
  have sub: "linked A \<subseteq> linked (insert (u, v) A)"
    by (rule linked_mono) auto
  have e: "(u, v) \<in> linked (insert (u, v) A)"
    by (rule linked_edge) simp
  note e' = linked_sym [OF e]
  assume "?r x y"
  then show ?l
    using sub e e' linked_trans [of _ _ "insert (u, v) A"] by blast
qed

lemma linked_insert_absorb:
  assumes "(u, v) \<in> linked A"
  shows "linked (insert (u, v) A) = linked A"
proof -
  have "(x, y) \<in> linked (insert (u, v) A) \<longleftrightarrow> (x, y) \<in> linked A" for x y
    unfolding linked_insert
    using assms linked_sym [OF assms] linked_trans [of _ _ A] by blast
  then show ?thesis by auto
qed

lemma acyclic_edges_subset:
  assumes "acyclic_edges B" and "A \<subseteq> B"
  shows "acyclic_edges A"
  unfolding acyclic_edges_def
proof
  fix e assume e: "e \<in> A"
  with assms have "e \<notin> linked (B - {e})" by (auto simp: acyclic_edges_def)
  moreover have "linked (A - {e}) \<subseteq> linked (B - {e})"
    using assms(2) by (intro linked_mono) auto
  ultimately show "e \<notin> linked (A - {e})" by blast
qed

lemma acyclic_edges_insert:
  assumes ac: "acyclic_edges A" and n: "(u, v) \<notin> linked A"
  shows "acyclic_edges (insert (u, v) A)"
  unfolding acyclic_edges_def
proof
  fix e assume e: "e \<in> insert (u, v) A"
  have nA: "(u, v) \<notin> A"
  proof
    assume "(u, v) \<in> A"
    then have "(u, v) \<in> linked A" by (rule linked_edge)
    with n show False by simp
  qed
  show "e \<notin> linked (insert (u, v) A - {e})"
  proof (cases "e = (u, v)")
    case True
    with nA have "insert (u, v) A - {e} = A" by simp
    with n True show ?thesis by simp
  next
    case False
    with e have eA: "e \<in> A" by simp
    obtain x y where xy: "e = (x, y)" by (cases e)
    from False have eq: "insert (u, v) A - {e} = insert (u, v) (A - {e})" by auto
    from ac have "\<forall>e \<in> A. e \<notin> linked (A - {e})" unfolding acyclic_edges_def .
    from bspec [OF this eA] have b: "(x, y) \<notin> linked (A - {(x, y)})" unfolding xy .
    have sub: "linked (A - {(x, y)}) \<subseteq> linked A" by (rule linked_mono) simp
    from eA have exy: "(x, y) \<in> linked A" unfolding xy by (rule linked_edge)
    show ?thesis
    proof
      assume "e \<in> linked (insert (u, v) A - {e})"
      then have "e \<in> linked (insert (u, v) (A - {e}))" by (simp only: eq)
      then have "(x, y) \<in> linked (insert (u, v) (A - {(x, y)}))" by (simp only: xy)
      then have "((x, u) \<in> linked (A - {(x, y)}) \<and> (v, y) \<in> linked (A - {(x, y)})) \<or>
                 ((x, v) \<in> linked (A - {(x, y)}) \<and> (u, y) \<in> linked (A - {(x, y)}))"
        using b unfolding linked_insert by simp
      then show False
      proof
        assume "(x, u) \<in> linked (A - {(x, y)}) \<and> (v, y) \<in> linked (A - {(x, y)})"
        with sub have xu: "(x, u) \<in> linked A" and vy: "(v, y) \<in> linked A" by (simp_all add: subsetD)
        from linked_sym [OF xu] exy have "(u, y) \<in> linked A" by (rule linked_trans)
        from this linked_sym [OF vy] have "(u, v) \<in> linked A" by (rule linked_trans)
        with n show False by simp
      next
        assume "(x, v) \<in> linked (A - {(x, y)}) \<and> (u, y) \<in> linked (A - {(x, y)})"
        with sub have xv: "(x, v) \<in> linked A" and uy: "(u, y) \<in> linked A" by (simp_all add: subsetD)
        from uy linked_sym [OF exy] have "(u, x) \<in> linked A" by (rule linked_trans)
        from this xv have "(u, v) \<in> linked A" by (rule linked_trans)
        with n show False by simp
      qed
    qed
  qed
qed

subsection \<open>The list of sets as a partition\<close>

lemma find_set_from_member:
  "u \<in> \<Union>(set sets) \<Longrightarrow>
   \<exists>k<length sets. find_set_from i sets u = int (i + k) \<and> u \<in> sets ! k"
proof (induction sets arbitrary: i)
  case Nil
  then show ?case by simp
next
  case (Cons s sets)
  show ?case
  proof (cases "u \<in> s")
    case True
    then have "0 < length (s # sets) \<and> find_set_from i (s # sets) u = int (i + 0) \<and>
               u \<in> (s # sets) ! 0"
      by simp
    then show ?thesis by blast
  next
    case False
    with Cons.prems have "u \<in> \<Union>(set sets)" by simp
    from Cons.IH [OF this, of "Suc i"]
    obtain k where "k < length sets" "find_set_from (Suc i) sets u = int (Suc i + k)"
        "u \<in> sets ! k"
      by blast
    with False have "Suc k < length (s # sets) \<and>
        find_set_from i (s # sets) u = int (i + Suc k) \<and> u \<in> (s # sets) ! Suc k"
      by simp
    then show ?thesis by blast
  qed
qed

lemma find_set_member:
  assumes "u \<in> \<Union>(set sets)"
  obtains k where "k < length sets" "find_set sets u = int k" "u \<in> sets ! k"
  using find_set_from_member [OF assms, of 0] by (auto simp: find_set_def)

lemma py_index_nat: "k < n \<Longrightarrow> py_index n (int k) = Some k"
  by (simp add: py_index_def)

lemma delete_nth_distinct:
  assumes "distinct xs" and "i < length xs"
  shows "set (take i xs @ drop (Suc i) xs) = set xs - {xs ! i}"
    and "distinct (take i xs @ drop (Suc i) xs)"
    and "length (take i xs @ drop (Suc i) xs) = length xs - 1"
proof -
  from assms(2) have xs: "xs = take i xs @ xs ! i # drop (Suc i) xs"
    by (rule id_take_nth_drop)
  from assms(1) have d: "distinct (take i xs @ xs ! i # drop (Suc i) xs)"
    using xs by simp
  then show "distinct (take i xs @ drop (Suc i) xs)" by simp
  have "set xs = set (take i xs @ xs ! i # drop (Suc i) xs)" using xs by simp
  with d show "set (take i xs @ drop (Suc i) xs) = set xs - {xs ! i}" by auto
  from assms(2) show "length (take i xs @ drop (Suc i) xs) = length xs - 1" by simp
qed

lemma partition_of_unique:
  assumes p: "partition_of V sets" and s: "s \<in> set sets" "x \<in> s" and t: "t \<in> set sets" "x \<in> t"
  shows "s = t"
proof (rule ccontr)
  assume "s \<noteq> t"
  with p s(1) t(1) have "s \<inter> t = {}" unfolding partition_of_def by blast
  moreover from s(2) t(2) have "x \<in> s \<inter> t" by simp
  ultimately show False by simp
qed

lemma partition_of_nth_unique:
  assumes p: "partition_of V sets" and k: "k < length sets" "x \<in> sets ! k"
    and s: "s \<in> set sets" "x \<in> s"
  shows "s = sets ! k"
proof -
  from k(1) have "sets ! k \<in> set sets" by simp
  from partition_of_unique [OF p s this k(2)] show ?thesis .
qed

text \<open>Merging two different sets of a partition, as the loop body does.\<close>

lemma partition_of_union:
  assumes p: "partition_of V sets"
    and i: "ui < length sets" "vi < length sets" "ui \<noteq> vi"
  defines "sets1 \<equiv> sets[vi := sets ! vi \<union> sets ! ui]"
  defines "sets' \<equiv> take ui sets1 @ drop (Suc ui) sets1"
  shows "partition_of V sets'"
    and "set sets' = insert (sets ! vi \<union> sets ! ui) (set sets - {sets ! ui, sets ! vi})"
    and "length sets' = length sets - 1"
proof -
  define su where "su = sets ! ui"
  define sv where "sv = sets ! vi"
  define S where "S = sv \<union> su"
  from p have d: "distinct sets" and ne: "{} \<notin> set sets" and un: "\<Union>(set sets) = V"
    unfolding partition_of_def by simp_all
  from i have mem: "su \<in> set sets" "sv \<in> set sets" by (simp_all add: su_def sv_def)
  from d i have neq: "su \<noteq> sv" by (simp add: nth_eq_iff_index_eq su_def sv_def)
  from mem ne have "su \<noteq> {}" "sv \<noteq> {}" by metis+
  then have "\<exists>a. a \<in> su" "\<exists>b. b \<in> sv" by blast+
  then obtain a b where a: "a \<in> su" and b: "b \<in> sv" by blast
  have Snew: "S \<notin> set sets"
  proof
    assume S: "S \<in> set sets"
    from a b have "a \<in> S" "b \<in> S" by (simp_all add: S_def)
    from partition_of_unique [OF p S this(1) mem(1) a]
         partition_of_unique [OF p S this(2) mem(2) b] neq
    show False by simp
  qed
  have other: "x \<notin> S" if "r \<in> set sets" "r \<noteq> su" "r \<noteq> sv" "x \<in> r" for r x
  proof
    assume "x \<in> S"
    then have "x \<in> su \<or> x \<in> sv" by (auto simp: S_def)
    then show False
      using partition_of_unique [OF p that(1,4) mem(1)]
        partition_of_unique [OF p that(1,4) mem(2)] that(2,3) by blast
  qed
  have set1: "set sets1 = insert S (set sets - {sv})"
    unfolding sets1_def S_def su_def sv_def using d i(2) by (rule set_update_distinct)
  have "S \<notin> set sets - {sets ! vi}" using Snew by simp
  with d have d1: "distinct sets1"
    unfolding sets1_def S_def su_def sv_def by (rule distinct_list_update)
  have len1: "length sets1 = length sets" by (simp add: sets1_def)
  have nth1: "sets1 ! ui = su" using i by (simp add: sets1_def su_def)
  from i len1 have ui1: "ui < length sets1" by simp
  note del = delete_nth_distinct [OF d1 ui1, folded sets'_def]
  from Snew mem(1) have Su: "S \<noteq> su" by metis
  have "set sets' = set sets1 - {sets1 ! ui}" by (rule del(1))
  then have m0: "r \<in> set sets' \<longleftrightarrow> (r = S \<or> (r \<in> set sets \<and> r \<noteq> sv)) \<and> r \<noteq> su" for r
    by (simp add: set1 nth1)
  have mem': "r \<in> set sets' \<longleftrightarrow> r = S \<or> (r \<in> set sets \<and> r \<noteq> su \<and> r \<noteq> sv)" for r
    unfolding m0 using Su by metis
  have set': "set sets' = insert S (set sets - {su, sv})"
  proof (rule set_eqI)
    fix r show "r \<in> set sets' \<longleftrightarrow> r \<in> insert S (set sets - {su, sv})"
      unfolding mem' insert_iff Diff_iff empty_iff by metis
  qed
  then show "set sets' = insert (sets ! vi \<union> sets ! ui) (set sets - {sets ! ui, sets ! vi})"
    by (simp only: S_def su_def sv_def)
  from del(3) len1 show "length sets' = length sets - 1" by simp
  have "\<Union>(set sets') = V"
  proof (rule set_eqI)
    fix x
    show "x \<in> \<Union>(set sets') \<longleftrightarrow> x \<in> V"
    proof
      assume "x \<in> \<Union>(set sets')"
      then obtain r where r: "r \<in> set sets'" "x \<in> r" by blast
      from r(1) have "r = S \<or> r \<in> set sets" unfolding mem' by metis
      then have "\<exists>r' \<in> set sets. x \<in> r'"
      proof
        assume "r = S"
        with r(2) have "x \<in> su \<or> x \<in> sv" by (auto simp: S_def)
        with mem show ?thesis by blast
      next
        assume "r \<in> set sets"
        with r(2) show ?thesis by blast
      qed
      with un show "x \<in> V" by blast
    next
      assume "x \<in> V"
      with un obtain r where r: "r \<in> set sets" "x \<in> r" by blast
      show "x \<in> \<Union>(set sets')"
      proof (cases "r = su \<or> r = sv")
        case True
        with r(2) have "x \<in> S" by (auto simp: S_def)
        moreover have "S \<in> set sets'" unfolding mem' by simp
        ultimately show ?thesis by blast
      next
        case False
        with r(1) have "r \<in> set sets'" unfolding mem' by metis
        with r(2) show ?thesis by blast
      qed
    qed
  qed
  moreover have "{} \<notin> set sets'"
  proof
    assume "{} \<in> set sets'"
    then have "{} = S \<or> {} \<in> set sets" unfolding mem' by metis
    with ne a show False by (auto simp: S_def)
  qed
  moreover have "\<forall>s \<in> set sets'. \<forall>t \<in> set sets'. s \<noteq> t \<longrightarrow> s \<inter> t = {}"
  proof (intro ballI impI)
    fix s t assume st: "s \<in> set sets'" "t \<in> set sets'" "s \<noteq> t"
    show "s \<inter> t = {}"
    proof (rule ccontr)
      assume "s \<inter> t \<noteq> {}"
      then obtain x where x: "x \<in> s" "x \<in> t" by blast
      from st(1) have s: "s = S \<or> (s \<in> set sets \<and> s \<noteq> su \<and> s \<noteq> sv)" unfolding mem' .
      from st(2) have t: "t = S \<or> (t \<in> set sets \<and> t \<noteq> su \<and> t \<noteq> sv)" unfolding mem' .
      from s t st(3) consider "s = S" "t \<in> set sets" "t \<noteq> su" "t \<noteq> sv"
        | "t = S" "s \<in> set sets" "s \<noteq> su" "s \<noteq> sv"
        | "s \<in> set sets" "t \<in> set sets"
        by metis
      then show False
      proof cases
        case 1
        from other [OF 1(2,3,4) x(2)] 1(1) x(1) show False by simp
      next
        case 2
        from other [OF 2(2,3,4) x(1)] 2(1) x(2) show False by simp
      next
        case 3
        from partition_of_unique [OF p 3(1) x(1) 3(2) x(2)] st(3) show False by simp
      qed
    qed
  qed
  ultimately show "partition_of V sets'"
    unfolding partition_of_def using del(2) by simp
qed

subsection \<open>The loop body keeps the invariant\<close>

lemma same_setI: "s \<in> set sets \<Longrightarrow> x \<in> s \<Longrightarrow> y \<in> s \<Longrightarrow> same_set sets x y"
  unfolding same_set_def by (rule bexI [of _ s]) simp_all

lemma same_set_index:
  assumes p: "partition_of V sets"
    and u: "ui < length sets" "u \<in> sets ! ui"
    and v: "vi < length sets" "v \<in> sets ! vi"
  shows "same_set sets u v \<longleftrightarrow> ui = vi"
proof
  assume "same_set sets u v"
  then obtain s where s: "s \<in> set sets" "u \<in> s" "v \<in> s" unfolding same_set_def by blast
  from partition_of_nth_unique [OF p u s(1,2)] partition_of_nth_unique [OF p v s(1,3)]
  have "sets ! ui = sets ! vi" by simp
  moreover from p have "distinct sets" unfolding partition_of_def by simp
  ultimately show "ui = vi" using u(1) v(1) by (simp add: nth_eq_iff_index_eq)
next
  assume "ui = vi"
  with u v have "sets ! ui \<in> set sets" "u \<in> sets ! ui" "v \<in> sets ! ui" by simp_all
  then show "same_set sets u v" by (rule same_setI)
qed

lemma same_set_member:
  assumes p: "partition_of V sets" and u: "ui < length sets" "u \<in> sets ! ui"
  shows "x \<in> sets ! ui \<longleftrightarrow> same_set sets x u"
proof
  assume "x \<in> sets ! ui"
  with u have "sets ! ui \<in> set sets" "x \<in> sets ! ui" "u \<in> sets ! ui" by simp_all
  then show "same_set sets x u" by (rule same_setI)
next
  assume "same_set sets x u"
  then obtain s where s: "s \<in> set sets" "x \<in> s" "u \<in> s" unfolding same_set_def by blast
  from partition_of_nth_unique [OF p u s(1,3)] s(2) show "x \<in> sets ! ui" by simp
qed

lemma kruskal_step_inv:
  assumes inv: "kruskal_inv V Es (sets, A)" and uv: "u \<in> V" "v \<in> V" "u \<noteq> v"
  defines "A' \<equiv> (if (u, v) \<in> linked A then A else insert (u, v) A)"
  shows "\<exists>sets'. kruskal_step (u, v) (sets, A) = Inr (sets', A') \<and>
                 kruskal_inv V (insert (u, v) Es) (sets', A')"
proof -
  from inv have p: "partition_of V sets"
    and d: "\<forall>x \<in> V. \<forall>y \<in> V. same_set sets x y \<longleftrightarrow> (x, y) \<in> linked A"
    and e: "\<forall>x \<in> V. \<forall>y \<in> V. (x, y) \<in> linked A \<longleftrightarrow> (x, y) \<in> linked Es"
    and sub: "A \<subseteq> Es" and comp: "Es \<subseteq> complete_edges V" and fin: "finite A"
    and cnt: "card A + length sets = card V" and ac: "acyclic_edges A"
    unfolding kruskal_inv_def by simp_all
  from p have un: "\<Union>(set sets) = V" unfolding partition_of_def by simp
  from uv un have "u \<in> \<Union>(set sets)" "v \<in> \<Union>(set sets)" by simp_all
  then obtain ui vi where ui: "ui < length sets" "find_set sets u = int ui" "u \<in> sets ! ui"
    and vi: "vi < length sets" "find_set sets v = int vi" "v \<in> sets ! vi"
    by (metis find_set_member)
  from d uv have duv: "same_set sets u v \<longleftrightarrow> (u, v) \<in> linked A" by simp
  note idx = same_set_index [OF p ui(1,3) vi(1,3)]
  from uv comp have comp': "insert (u, v) Es \<subseteq> complete_edges V"
    by (simp add: complete_edges_def)
  show ?thesis
  proof (cases "(u, v) \<in> linked A")
    case True
    with duv idx have "ui = vi" by simp
    then have step: "kruskal_step (u, v) (sets, A) = Inr (sets, A)"
      by (simp add: kruskal_step_def ui(2) vi(2))
    from True e uv have "(u, v) \<in> linked Es" by simp
    then have "linked (insert (u, v) Es) = linked Es" by (rule linked_insert_absorb)
    with e have e': "\<forall>x \<in> V. \<forall>y \<in> V. (x, y) \<in> linked A \<longleftrightarrow> (x, y) \<in> linked (insert (u, v) Es)"
      by simp
    from sub have "A \<subseteq> insert (u, v) Es" by (rule subset_insertI2)
    with p d e' comp' fin cnt ac have "kruskal_inv V (insert (u, v) Es) (sets, A)"
      unfolding kruskal_inv_def by simp
    with step True show ?thesis by (simp add: A'_def)
  next
    case False
    with duv idx have neq: "ui \<noteq> vi" by simp
    define sets' where
      "sets' = take ui (sets[vi := sets ! vi \<union> sets ! ui]) @
               drop (Suc ui) (sets[vi := sets ! vi \<union> sets ! ui])"
    note pu = partition_of_union [OF p ui(1) vi(1) neq, folded sets'_def]
    have step: "kruskal_step (u, v) (sets, A) = Inr (sets', insert (u, v) A)"
      using neq ui(1) vi(1)
      by (simp add: kruskal_step_def ui(2) vi(2) union_sets_def py_index_nat sets'_def Let_def)
    have in_V: "x \<in> V" if "x \<in> sets ! k" "k < length sets" for x k
    proof -
      from that have "x \<in> \<Union>(set sets)" by (metis UnionI nth_mem)
      with un show ?thesis by simp
    qed
    have in_su: "x \<in> sets ! ui \<longleftrightarrow> (x, u) \<in> linked A" if "x \<in> V" for x
      using same_set_member [OF p ui(1,3), of x] d that uv(1) by simp
    have in_sv: "x \<in> sets ! vi \<longleftrightarrow> (x, v) \<in> linked A" if "x \<in> V" for x
      using same_set_member [OF p vi(1,3), of x] d that uv(2) by simp
    have mem': "r \<in> set sets' \<longleftrightarrow>
                r = sets ! vi \<union> sets ! ui \<or> (r \<in> set sets \<and> r \<noteq> sets ! ui \<and> r \<noteq> sets ! vi)"
      for r unfolding pu(2) insert_iff Diff_iff empty_iff by metis
    have Sin: "sets ! vi \<union> sets ! ui \<in> set sets'" unfolding mem' by simp
    have d': "same_set sets' x y \<longleftrightarrow> (x, y) \<in> linked (insert (u, v) A)"
      if x: "x \<in> V" and y: "y \<in> V" for x y
    proof
      assume "same_set sets' x y"
      then obtain r where r: "r \<in> set sets'" "x \<in> r" "y \<in> r"
        unfolding same_set_def by blast
      from r(1) have "r = sets ! vi \<union> sets ! ui \<or> r \<in> set sets" unfolding mem' by metis
      then show "(x, y) \<in> linked (insert (u, v) A)"
      proof
        assume "r = sets ! vi \<union> sets ! ui"
        with r(2,3) have "(x \<in> sets ! ui \<or> x \<in> sets ! vi) \<and> (y \<in> sets ! ui \<or> y \<in> sets ! vi)"
          by auto
        with in_su [OF x] in_sv [OF x] in_su [OF y] in_sv [OF y]
        have "((x, u) \<in> linked A \<or> (x, v) \<in> linked A) \<and>
              ((y, u) \<in> linked A \<or> (y, v) \<in> linked A)"
          by simp
        then have "((x, u) \<in> linked A \<or> (x, v) \<in> linked A) \<and>
              ((u, y) \<in> linked A \<or> (v, y) \<in> linked A)"
          using linked_sym by metis
        then show ?thesis
          unfolding linked_insert using linked_trans by metis
      next
        assume "r \<in> set sets"
        from this r(2,3) have "same_set sets x y" by (rule same_setI)
        with d x y have "(x, y) \<in> linked A" by simp
        then show ?thesis unfolding linked_insert by simp
      qed
    next
      assume "(x, y) \<in> linked (insert (u, v) A)"
      then consider "(x, y) \<in> linked A"
        | "(x, u) \<in> linked A" "(v, y) \<in> linked A"
        | "(x, v) \<in> linked A" "(u, y) \<in> linked A"
        unfolding linked_insert by metis
      then show "same_set sets' x y"
      proof cases
        case 1
        with d x y have "same_set sets x y" by simp
        then obtain s where s: "s \<in> set sets" "x \<in> s" "y \<in> s"
          unfolding same_set_def by blast
        show ?thesis
        proof (cases "s = sets ! ui \<or> s = sets ! vi")
          case True
          with s(2,3) have "x \<in> sets ! vi \<union> sets ! ui" "y \<in> sets ! vi \<union> sets ! ui"
            by auto
          with Sin show ?thesis by (rule same_setI)
        next
          case False
          with s(1) have "s \<in> set sets'" unfolding mem' by metis
          from this s(2,3) show ?thesis by (rule same_setI)
        qed
      next
        case 2
        from 2(1) in_su [OF x] have "x \<in> sets ! ui" by simp
        moreover from linked_sym [OF 2(2)] in_sv [OF y] have "y \<in> sets ! vi" by simp
        ultimately have "x \<in> sets ! vi \<union> sets ! ui" "y \<in> sets ! vi \<union> sets ! ui" by simp_all
        with Sin show ?thesis by (rule same_setI)
      next
        case 3
        from 3(1) in_sv [OF x] have "x \<in> sets ! vi" by simp
        moreover from linked_sym [OF 3(2)] in_su [OF y] have "y \<in> sets ! ui" by simp
        ultimately have "x \<in> sets ! vi \<union> sets ! ui" "y \<in> sets ! vi \<union> sets ! ui" by simp_all
        with Sin show ?thesis by (rule same_setI)
      qed
    qed
    have e': "(x, y) \<in> linked (insert (u, v) A) \<longleftrightarrow> (x, y) \<in> linked (insert (u, v) Es)"
      if x: "x \<in> V" and y: "y \<in> V" for x y
      unfolding linked_insert using e x y uv(1,2) by simp
    have nA: "(u, v) \<notin> A"
    proof
      assume "(u, v) \<in> A"
      then have "(u, v) \<in> linked A" by (rule linked_edge)
      with False show False by simp
    qed
    from sub have sub': "insert (u, v) A \<subseteq> insert (u, v) Es" by (rule insert_mono)
    from fin have fin': "finite (insert (u, v) A)" by simp
    from neq ui(1) vi(1) have "2 \<le> length sets" by simp
    with cnt pu(3) fin nA have cnt': "card (insert (u, v) A) + length sets' = card V" by simp
    from ac False have ac': "acyclic_edges (insert (u, v) A)" by (rule acyclic_edges_insert)
    from pu(1) d' e' sub' comp' fin' cnt' ac'
    have "kruskal_inv V (insert (u, v) Es) (sets', insert (u, v) A)"
      unfolding kruskal_inv_def by simp
    with step False show ?thesis by (simp add: A'_def)
  qed
qed

subsection \<open>The loop over a list of edges\<close>

lemma complete_edgesD:
  "(u, v) \<in> complete_edges V \<Longrightarrow> u \<in> V \<and> v \<in> V \<and> u \<noteq> v"
  by (simp add: complete_edges_def)

lemma kruskal_fold_inv:
  "kruskal_inv V Es st \<Longrightarrow> set L \<subseteq> complete_edges V \<Longrightarrow>
   \<exists>st'. fold_err kruskal_step L st = Inr st' \<and> kruskal_inv V (Es \<union> set L) st' \<and>
         snd st \<subseteq> snd st' \<and> snd st' \<subseteq> snd st \<union> set L"
proof (induction L arbitrary: st Es)
  case Nil
  then show ?case by simp
next
  case (Cons e L)
  obtain u v where e: "e = (u, v)" by (cases e)
  obtain sets A where st: "st = (sets, A)" by (cases st)
  from Cons.prems(2) e have "(u, v) \<in> complete_edges V" by simp
  then have uv: "u \<in> V" "v \<in> V" "u \<noteq> v" by (simp_all add: complete_edges_def)
  define A1 where "A1 = (if (u, v) \<in> linked A then A else insert (u, v) A)"
  from kruskal_step_inv [OF Cons.prems(1) [unfolded st] uv, folded A1_def]
  obtain sets1 where s1: "kruskal_step (u, v) (sets, A) = Inr (sets1, A1)"
      "kruskal_inv V (insert (u, v) Es) (sets1, A1)"
    by blast
  from Cons.prems(2) have L: "set L \<subseteq> complete_edges V" by simp
  from Cons.IH [OF s1(2) L]
  obtain st' where st': "fold_err kruskal_step L (sets1, A1) = Inr st'"
      "kruskal_inv V (insert (u, v) Es \<union> set L) st'"
      "A1 \<subseteq> snd st'" "snd st' \<subseteq> A1 \<union> set L"
    by auto
  have A1: "A \<subseteq> A1" "A1 \<subseteq> insert (u, v) A" by (auto simp: A1_def)
  have "fold_err kruskal_step (e # L) st = Inr st'"
    by (simp add: e st s1(1) st'(1))
  moreover have "kruskal_inv V (Es \<union> set (e # L)) st'"
    using st'(2) by (simp add: e)
  moreover have "snd st \<subseteq> snd st'" using A1(1) st'(3) by (simp add: st)
  moreover have "snd st' \<subseteq> snd st \<union> set (e # L)"
    using A1(2) st'(4) by (auto simp: st e)
  ultimately show ?case by blast
qed

lemma linked_empty: "(x, y) \<in> linked {} \<longleftrightarrow> x = y"
  by (simp add: linked_def)

lemma kruskal_inv_initial:
  assumes "distinct pins"
  shows "kruskal_inv (set pins) {} (map (\<lambda>pin. {pin}) pins, {})"
proof -
  have "inj (\<lambda>pin::'a. {pin})" by (simp add: inj_def)
  with assms have d: "distinct (map (\<lambda>pin. {pin}) pins)"
    by (simp add: distinct_map inj_on_def)
  have "partition_of (set pins) (map (\<lambda>pin. {pin}) pins)"
    unfolding partition_of_def using d by auto
  moreover have "same_set (map (\<lambda>pin. {pin}) pins) x y \<longleftrightarrow> (x, y) \<in> linked {}"
    if "x \<in> set pins" for x y
    using that by (auto simp: same_set_def linked_empty)
  moreover have "card ({}::('a \<times> 'a) set) + length (map (\<lambda>pin. {pin}) pins) = card (set pins)"
    using assms by (simp add: distinct_card)
  moreover have "acyclic_edges ({}::('a \<times> 'a) set)" by (simp add: acyclic_edges_def)
  ultimately show ?thesis
    unfolding kruskal_inv_def by simp
qed

subsection \<open>Connected components\<close>

lemma kruskal_inv_classes:
  assumes inv: "kruskal_inv V Es (sets, A)"
  shows "set sets = classes V Es" and "length sets = card (classes V Es)"
proof -
  from inv have p: "partition_of V sets"
    and d: "\<forall>x \<in> V. \<forall>y \<in> V. same_set sets x y \<longleftrightarrow> (x, y) \<in> linked A"
    and e: "\<forall>x \<in> V. \<forall>y \<in> V. (x, y) \<in> linked A \<longleftrightarrow> (x, y) \<in> linked Es"
    unfolding kruskal_inv_def by simp_all
  from p have un: "\<Union>(set sets) = V" and ne: "{} \<notin> set sets" and dist: "distinct sets"
    unfolding partition_of_def by simp_all
  have cls: "s = {y \<in> V. (x, y) \<in> linked Es}" if s: "s \<in> set sets" and x: "x \<in> s" for s x
  proof (rule set_eqI)
    fix y
    from s x un have xV: "x \<in> V" by blast
    show "y \<in> s \<longleftrightarrow> y \<in> {y \<in> V. (x, y) \<in> linked Es}"
    proof
      assume y: "y \<in> s"
      with s un have yV: "y \<in> V" by blast
      from s x y have "same_set sets x y" by (rule same_setI)
      with d e xV yV show "y \<in> {y \<in> V. (x, y) \<in> linked Es}" by simp
    next
      assume "y \<in> {y \<in> V. (x, y) \<in> linked Es}"
      then have yV: "y \<in> V" and l: "(x, y) \<in> linked Es" by simp_all
      with d e xV have "same_set sets x y" by simp
      then obtain t where t: "t \<in> set sets" "x \<in> t" "y \<in> t" unfolding same_set_def by blast
      from partition_of_unique [OF p t(1,2) s x] t(3) show "y \<in> s" by simp
    qed
  qed
  show eq: "set sets = classes V Es"
  proof (rule set_eqI)
    fix s
    show "s \<in> set sets \<longleftrightarrow> s \<in> classes V Es"
    proof
      assume s: "s \<in> set sets"
      with ne have "s \<noteq> {}" by metis
      then have "\<exists>x. x \<in> s" by blast
      then obtain x where x: "x \<in> s" by blast
      from s x un have "x \<in> V" by blast
      with cls [OF s x] show "s \<in> classes V Es" unfolding classes_def by (rule image_eqI)
    next
      assume "s \<in> classes V Es"
      then obtain x where x: "x \<in> V" "s = {y \<in> V. (x, y) \<in> linked Es}"
        unfolding classes_def by blast
      from x(1) un obtain t where t: "t \<in> set sets" "x \<in> t" by blast
      from cls [OF t] x(2) have "s = t" by simp
      with t(1) show "s \<in> set sets" by simp
    qed
  qed
  from dist have "length sets = card (set sets)" by (simp add: distinct_card)
  with eq show "length sets = card (classes V Es)" by simp
qed

lemma classes_mono:
  assumes "Es \<subseteq> Es'" and "finite V"
  shows "card (classes V Es') \<le> card (classes V Es)"
proof -
  define f where "f c = {y \<in> V. \<exists>x \<in> c. (x, y) \<in> linked Es'}" for c
  from assms(1) have sub: "linked Es \<subseteq> linked Es'" by (rule linked_mono)
  have "f {y \<in> V. (x, y) \<in> linked Es} = {y \<in> V. (x, y) \<in> linked Es'}" if x: "x \<in> V" for x
  proof (rule set_eqI)
    fix y
    show "y \<in> f {y \<in> V. (x, y) \<in> linked Es} \<longleftrightarrow> y \<in> {y \<in> V. (x, y) \<in> linked Es'}"
    proof
      assume "y \<in> f {y \<in> V. (x, y) \<in> linked Es}"
      then obtain x' where y: "y \<in> V" and x': "(x, x') \<in> linked Es" "(x', y) \<in> linked Es'"
        unfolding f_def by blast
      from x'(1) sub have "(x, x') \<in> linked Es'" by (rule subsetD [rotated])
      from this x'(2) have "(x, y) \<in> linked Es'" by (rule linked_trans)
      with y show "y \<in> {y \<in> V. (x, y) \<in> linked Es'}" by simp
    next
      assume "y \<in> {y \<in> V. (x, y) \<in> linked Es'}"
      then have "y \<in> V" "(x, y) \<in> linked Es'" by simp_all
      moreover from x have "x \<in> {y \<in> V. (x, y) \<in> linked Es}" by simp
      ultimately show "y \<in> f {y \<in> V. (x, y) \<in> linked Es}" unfolding f_def by blast
    qed
  qed
  then have "classes V Es' = f ` classes V Es"
    unfolding classes_def image_image by (intro image_cong [OF refl]) simp
  moreover from assms(2) have "finite (classes V Es)" by (simp add: classes_def)
  ultimately show ?thesis by (simp add: card_image_le)
qed

lemma complete_linked:
  assumes "u \<in> V" and "v \<in> V"
  shows "(u, v) \<in> linked (complete_edges V)"
proof (cases "u = v")
  case True
  then show ?thesis by simp
next
  case False
  with assms have "(u, v) \<in> complete_edges V" by (simp add: complete_edges_def)
  then show ?thesis by (rule linked_edge)
qed

lemma classes_complete:
  assumes "V \<noteq> {}"
  shows "classes V (complete_edges V) = {V}"
proof -
  have "{y \<in> V. (x, y) \<in> linked (complete_edges V)} = V" if "x \<in> V" for x
    using complete_linked [OF that] by blast
  then have "classes V (complete_edges V) = (\<lambda>x. V) ` V"
    unfolding classes_def by (intro image_cong [OF refl]) simp
  with assms show ?thesis by auto
qed

lemma kruskal_inv_spanning_tree:
  assumes inv: "kruskal_inv V (complete_edges V) (sets, A)" and V: "V \<noteq> {}"
  shows "spanning_tree V A"
proof -
  from inv have d: "\<forall>x \<in> V. \<forall>y \<in> V. (x, y) \<in> linked A \<longleftrightarrow> (x, y) \<in> linked (complete_edges V)"
    and sub: "A \<subseteq> complete_edges V" and cnt: "card A + length sets = card V"
    and ac: "acyclic_edges A"
    unfolding kruskal_inv_def by simp_all
  from sub have "A \<subseteq> V \<times> V" by (auto simp: complete_edges_def)
  moreover have "\<forall>u \<in> V. \<forall>v \<in> V. (u, v) \<in> linked A"
  proof (intro ballI)
    fix u v assume "u \<in> V" "v \<in> V"
    with d complete_linked [of u V v] show "(u, v) \<in> linked A" by simp
  qed
  moreover from kruskal_inv_classes(2) [OF inv] classes_complete [OF V]
  have "length sets = 1" by simp
  with cnt have "card A = card V - 1" by simp
  ultimately show ?thesis using ac unfolding spanning_tree_def by simp
qed

subsection \<open>Counting the edges below a weight\<close>

lemma fold_err_append:
  "fold_err f (xs @ ys) s =
     (case fold_err f xs s of Inl e \<Rightarrow> Inl e | Inr s' \<Rightarrow> fold_err f ys s')"
  by (induction xs arbitrary: s) (auto split: sum.splits)

lemma sorted_filter_split:
  fixes f :: "'a \<Rightarrow> int"
  shows "sorted (map f xs) \<Longrightarrow>
         xs = filter (\<lambda>x. f x \<le> t) xs @ filter (\<lambda>x. \<not> f x \<le> t) xs"
proof (induction xs)
  case Nil
  show ?case by simp
next
  case (Cons x xs)
  then have IH: "xs = filter (\<lambda>x. f x \<le> t) xs @ filter (\<lambda>x. \<not> f x \<le> t) xs"
    and le: "\<forall>y \<in> set xs. f x \<le> f y"
    by simp_all
  show ?case
  proof (cases "f x \<le> t")
    case True
    with IH show ?thesis by simp
  next
    case False
    with le have "\<forall>y \<in> set xs. \<not> f y \<le> t" by auto
    then have "filter (\<lambda>x. f x \<le> t) xs = []" "filter (\<lambda>x. \<not> f x \<le> t) xs = xs"
      by (simp_all add: filter_empty_conv filter_id_conv)
    with False show ?thesis by simp
  qed
qed

text \<open>
  After a run over all edges by rising weight, the kept edges of weight at most \<open>t\<close> and
  the components of the graph of all edges of weight at most \<open>t\<close> add up to the number
  of vertices.
\<close>

lemma run_count:
  assumes inv: "kruskal_inv V {} (sets0, {})"
    and L: "set L = complete_edges V" "sorted (map weights L)"
    and run: "fold_err kruskal_step L (sets0, {}) = Inr (sets, A)"
  shows "card {e \<in> A. weights e \<le> t} +
         card (classes V {e \<in> complete_edges V. weights e \<le> t}) = card V"
proof -
  let ?L1 = "filter (\<lambda>e. weights e \<le> t) L" and ?L2 = "filter (\<lambda>e. \<not> weights e \<le> t) L"
  from L(1) have L1: "set ?L1 \<subseteq> complete_edges V" and L2: "set ?L2 \<subseteq> complete_edges V"
    by auto
  from kruskal_fold_inv [OF inv L1]
  obtain sets1 A1 where s1: "fold_err kruskal_step ?L1 (sets0, {}) = Inr (sets1, A1)"
      "kruskal_inv V (set ?L1) (sets1, A1)" "A1 \<subseteq> set ?L1"
    by auto
  from kruskal_fold_inv [OF s1(2) L2]
  obtain st2 where s2: "fold_err kruskal_step ?L2 (sets1, A1) = Inr st2"
      "A1 \<subseteq> snd st2" "snd st2 \<subseteq> A1 \<union> set ?L2"
    by auto
  have "fold_err kruskal_step (?L1 @ ?L2) (sets0, {}) = Inr st2"
    by (simp add: fold_err_append s1(1) s2(1))
  with sorted_filter_split [OF L(2), of t] run have "st2 = (sets, A)" by simp
  with s2 have A: "A1 \<subseteq> A" "A \<subseteq> A1 \<union> set ?L2" by simp_all
  have eq: "{e \<in> A. weights e \<le> t} = A1"
    using A s1(3) by auto
  have "set ?L1 = {e \<in> complete_edges V. weights e \<le> t}" using L(1) by auto
  with kruskal_inv_classes(2) [OF s1(2)]
  have len: "length sets1 = card (classes V {e \<in> complete_edges V. weights e \<le> t})" by simp
  from s1(2) have "card A1 + length sets1 = card V" unfolding kruskal_inv_def by simp
  with eq len show ?thesis by simp
qed

lemma fold_accept_all:
  "kruskal_inv V Es (sets, A) \<Longrightarrow> distinct xs \<Longrightarrow> set xs \<inter> A = {} \<Longrightarrow>
   acyclic_edges (A \<union> set xs) \<Longrightarrow> set xs \<subseteq> complete_edges V \<Longrightarrow>
   \<exists>sets'. kruskal_inv V (Es \<union> set xs) (sets', A \<union> set xs)"
proof (induction xs arbitrary: sets A Es)
  case Nil
  then show ?case by auto
next
  case (Cons e xs)
  obtain u v where e: "e = (u, v)" by (cases e)
  from Cons.prems(5) e have "(u, v) \<in> complete_edges V" by simp
  then have uv: "u \<in> V" "v \<in> V" "u \<noteq> v" by (simp_all add: complete_edges_def)
  from Cons.prems(3) have eA: "e \<notin> A" by auto
  have n: "(u, v) \<notin> linked A"
  proof
    assume l: "(u, v) \<in> linked A"
    from eA have "A \<subseteq> (A \<union> set (e # xs)) - {e}" by auto
    then have "linked A \<subseteq> linked ((A \<union> set (e # xs)) - {e})" by (rule linked_mono)
    with l have "e \<in> linked ((A \<union> set (e # xs)) - {e})" unfolding e by (rule subsetD [rotated])
    moreover from Cons.prems(4) have "e \<notin> linked ((A \<union> set (e # xs)) - {e})"
      unfolding acyclic_edges_def by simp
    ultimately show False by simp
  qed
  from kruskal_step_inv [OF Cons.prems(1) uv] n
  obtain sets1 where s1: "kruskal_inv V (insert (u, v) Es) (sets1, insert (u, v) A)"
    by auto
  have eq: "insert (u, v) A \<union> set xs = A \<union> set (e # xs)" by (simp add: e)
  from Cons.prems(2,3) have dj: "set xs \<inter> insert (u, v) A = {}" by (auto simp: e)
  from Cons.prems(2) have dx: "distinct xs" by simp
  from Cons.prems(4) have ac: "acyclic_edges (insert (u, v) A \<union> set xs)" by (simp only: eq)
  from Cons.prems(5) have sub: "set xs \<subseteq> complete_edges V" by simp
  from Cons.IH [OF s1 dx dj ac sub]
  obtain sets' where "kruskal_inv V (insert (u, v) Es \<union> set xs) (sets', insert (u, v) A \<union> set xs)"
    by blast
  then have "kruskal_inv V (Es \<union> set (e # xs)) (sets', A \<union> set (e # xs))"
    by (simp add: e)
  then show ?case by blast
qed

text \<open>
  An acyclic set of edges of the complete graph has, below every weight, at most as many
  edges as a run keeps.
\<close>

lemma forest_count:
  assumes V: "finite V" and T: "acyclic_edges T" "T \<subseteq> complete_edges V"
  shows "card {e \<in> T. weights e \<le> t} +
         card (classes V {e \<in> complete_edges V. weights e \<le> t}) \<le> card V"
proof -
  let ?Tt = "{e \<in> T. weights e \<le> t}" and ?Et = "{e \<in> complete_edges V. weights e \<le> t}"
  from V obtain pins where pins: "set pins = V" "distinct pins"
    using finite_distinct_list by blast
  have "complete_edges V \<subseteq> V \<times> V" by (auto simp: complete_edges_def)
  with V have "finite (complete_edges V)" by (simp add: finite_subset)
  with T(2) have "finite ?Tt" by (simp add: finite_subset)
  then obtain xs where xs: "set xs = ?Tt" "distinct xs"
    using finite_distinct_list by blast
  have ac: "acyclic_edges ({} \<union> set xs)"
    using acyclic_edges_subset [OF T(1), of ?Tt] xs(1) by simp
  have sub: "set xs \<subseteq> complete_edges V" using xs(1) T(2) by auto
  from fold_accept_all [OF kruskal_inv_initial [OF pins(2)] xs(2) _ ac] sub pins(1)
  obtain sets' where inv: "kruskal_inv V ?Tt (sets', ?Tt)"
    using xs(1) by auto
  then have "card ?Tt + length sets' = card V" unfolding kruskal_inv_def by simp
  with kruskal_inv_classes(2) [OF inv] have "card ?Tt + card (classes V ?Tt) = card V" by simp
  moreover have "card (classes V ?Et) \<le> card (classes V ?Tt)"
    using T(2) by (intro classes_mono V) auto
  ultimately show ?thesis by simp
qed

subsection \<open>From counts to total weights\<close>

lemma sum_levels:
  fixes w :: "'a \<Rightarrow> nat"
  assumes "finite S" and "\<forall>e \<in> S. w e \<le> M"
  shows "(\<Sum>e \<in> S. w e) = (\<Sum>t<M. card {e \<in> S. t < w e})"
proof -
  have "w e = (\<Sum>t<M. if t < w e then 1 else 0)" if "e \<in> S" for e
  proof -
    from that assms(2) have "w e \<le> M" by simp
    then have "{t. t < M \<and> t < w e} = {..<w e}" by auto
    then have "card {t \<in> {..<M}. t < w e} = w e" by simp
    then show ?thesis by (simp add: sum.If_cases Int_def)
  qed
  then have "(\<Sum>e \<in> S. w e) = (\<Sum>e \<in> S. \<Sum>t<M. if t < w e then 1 else 0)"
    by (intro sum.cong) simp_all
  also have "\<dots> = (\<Sum>t<M. \<Sum>e \<in> S. if t < w e then 1 else 0)"
    by (rule sum.swap)
  also have "\<dots> = (\<Sum>t<M. card {e \<in> S. t < w e})"
    using assms(1) by (intro sum.cong) (simp_all add: sum.If_cases Int_def)
  finally show ?thesis .
qed

lemma weight_le_by_counts:
  fixes w :: "'a \<Rightarrow> nat"
  assumes fin: "finite A" "finite T" and card: "card A = card T"
    and counts: "\<forall>t. card {e \<in> T. w e \<le> t} \<le> card {e \<in> A. w e \<le> t}"
  shows "(\<Sum>e \<in> A. w e) \<le> (\<Sum>e \<in> T. w e)"
proof -
  define M where "M = Max (insert 0 (w ` (A \<union> T)))"
  have M: "\<forall>e \<in> A \<union> T. w e \<le> M"
    using fin by (auto simp: M_def intro!: Max_ge)
  have above: "card {e \<in> S. t < w e} = card S - card {e \<in> S. w e \<le> t}" if "finite S" for S t
  proof -
    have "{e \<in> S. t < w e} = S - {e \<in> S. w e \<le> t}" by auto
    with that show ?thesis by (simp add: card_Diff_subset)
  qed
  have "card {e \<in> A. t < w e} \<le> card {e \<in> T. t < w e}" for t
    using counts card by (simp add: above fin diff_le_mono2)
  then have "(\<Sum>t<M. card {e \<in> A. t < w e}) \<le> (\<Sum>t<M. card {e \<in> T. t < w e})"
    by (intro sum_mono)
  with sum_levels [OF fin(1), of w M] sum_levels [OF fin(2), of w M] M
  show ?thesis by simp
qed

lemma weights_nonneg: "0 \<le> weights e"
  by (cases e) (auto simp: weights_def cityblock_def split: prod.splits)

lemma total_weight_nat: "total_weight S = int (\<Sum>e \<in> S. nat (weights e))"
  by (simp add: total_weight_def weights_nonneg)

subsection \<open>The loop never raises\<close>

lemma nth_mem_delete:
  assumes "j < length xs" and "j \<noteq> i"
  shows "xs ! j \<in> set (take i xs @ drop (Suc i) xs)"
proof (cases "j < i")
  case True
  with assms(1) have "j < length (take i xs)" by simp
  then have "take i xs ! j \<in> set (take i xs)" by (rule nth_mem)
  with True show ?thesis by simp
next
  case False
  with assms(2) have j: "Suc i \<le> j" by simp
  with assms(1) have "j - Suc i < length (drop (Suc i) xs)" by simp
  then have "drop (Suc i) xs ! (j - Suc i) \<in> set (drop (Suc i) xs)" by (rule nth_mem)
  moreover from j assms(1) have "drop (Suc i) xs ! (j - Suc i) = xs ! j" by simp
  ultimately show ?thesis by simp
qed

lemma union_sets_cover:
  assumes i: "ui < length sets" "vi < length sets" "ui \<noteq> vi"
  shows "\<exists>sets'. union_sets sets (int ui) (int vi) = Inr sets' \<and> \<Union>(set sets') = \<Union>(set sets)"
proof -
  define sets1 where "sets1 = sets[vi := sets ! vi \<union> sets ! ui]"
  define sets' where "sets' = take ui sets1 @ drop (Suc ui) sets1"
  have eq: "union_sets sets (int ui) (int vi) = Inr sets'"
    using i by (simp add: union_sets_def py_index_nat sets'_def sets1_def Let_def)
  have len1: "length sets1 = length sets" by (simp add: sets1_def)
  have nth1: "x \<in> sets1 ! k" if "k < length sets" "x \<in> sets ! k" for k x
  proof (cases "k = vi")
    case True
    with that show ?thesis by (simp add: sets1_def)
  next
    case False
    with that show ?thesis by (simp add: sets1_def)
  qed
  have nth1_rev: "\<exists>j<length sets. x \<in> sets ! j" if "k < length sets" "x \<in> sets1 ! k" for k x
  proof (cases "k = vi")
    case True
    with that have "x \<in> sets ! vi \<or> x \<in> sets ! ui" by (simp add: sets1_def)
    with i(1,2) show ?thesis by metis
  next
    case False
    with that have "x \<in> sets ! k" by (simp add: sets1_def)
    with that(1) show ?thesis by metis
  qed
  have "x \<in> \<Union>(set sets') \<longleftrightarrow> x \<in> \<Union>(set sets)" for x
  proof
    assume "x \<in> \<Union>(set sets')"
    then obtain r where r: "r \<in> set sets'" "x \<in> r" by (rule UnionE)
    from r(1) have "r \<in> set (take ui sets1) \<or> r \<in> set (drop (Suc ui) sets1)"
      by (simp add: sets'_def)
    then have "r \<in> set sets1"
    proof
      assume "r \<in> set (take ui sets1)"
      then show ?thesis by (rule in_set_takeD)
    next
      assume "r \<in> set (drop (Suc ui) sets1)"
      then show ?thesis by (rule in_set_dropD)
    qed
    then obtain k where k: "k < length sets1" "sets1 ! k = r"
      unfolding in_set_conv_nth by metis
    from k(1) len1 have kl: "k < length sets" by simp
    from r(2) k(2) have "x \<in> sets1 ! k" by simp
    from nth1_rev [OF kl this] obtain j where j: "j < length sets" "x \<in> sets ! j" by metis
    from j(1) have "sets ! j \<in> set sets" by (rule nth_mem)
    with j(2) show "x \<in> \<Union>(set sets)" by (rule UnionI [rotated])
  next
    assume "x \<in> \<Union>(set sets)"
    then obtain r where r: "r \<in> set sets" "x \<in> r" by (rule UnionE)
    from r(1) obtain k where k: "k < length sets" "sets ! k = r"
      unfolding in_set_conv_nth by metis
    from r(2) k(2) have xk: "x \<in> sets ! k" by simp
    show "x \<in> \<Union>(set sets')"
    proof (cases "k = ui")
      case True
      with xk i(2) have "x \<in> sets1 ! vi" by (simp add: sets1_def)
      moreover from i len1 have "sets1 ! vi \<in> set sets'"
        unfolding sets'_def by (intro nth_mem_delete) simp_all
      ultimately show ?thesis by (rule UnionI [rotated])
    next
      case False
      from nth1 [OF k(1) xk] have "x \<in> sets1 ! k" .
      moreover from k(1) len1 False have "sets1 ! k \<in> set sets'"
        unfolding sets'_def by (intro nth_mem_delete) simp_all
      ultimately show ?thesis by (rule UnionI [rotated])
    qed
  qed
  then have "\<Union>(set sets') = \<Union>(set sets)" by (rule set_eqI)
  with eq show ?thesis by simp
qed

lemma kruskal_step_total:
  assumes "u \<in> \<Union>(set sets)" and "v \<in> \<Union>(set sets)"
  shows "\<exists>sets' A'. kruskal_step (u, v) (sets, A) = Inr (sets', A') \<and>
           \<Union>(set sets') = \<Union>(set sets)"
proof -
  from assms obtain ui vi where ui: "ui < length sets" "find_set sets u = int ui"
    and vi: "vi < length sets" "find_set sets v = int vi"
    by (metis find_set_member)
  show ?thesis
  proof (cases "ui = vi")
    case True
    then show ?thesis by (simp add: kruskal_step_def ui(2) vi(2))
  next
    case False
    from union_sets_cover [OF ui(1) vi(1) False]
    obtain sets' where "union_sets sets (int ui) (int vi) = Inr sets'"
        "\<Union>(set sets') = \<Union>(set sets)"
      by blast
    with False show ?thesis by (simp add: kruskal_step_def ui(2) vi(2))
  qed
qed

lemma kruskal_fold_total:
  "\<forall>(u, v) \<in> set L. u \<in> \<Union>(set sets) \<and> v \<in> \<Union>(set sets) \<Longrightarrow>
   \<exists>st'. fold_err kruskal_step L (sets, A) = Inr st'"
proof (induction L arbitrary: sets A)
  case Nil
  show ?case by simp
next
  case (Cons e L)
  obtain u v where e: "e = (u, v)" by (cases e)
  from Cons.prems e have uv: "u \<in> \<Union>(set sets)" "v \<in> \<Union>(set sets)" by simp_all
  from kruskal_step_total [OF uv, of A]
  obtain sets' A' where s: "kruskal_step (u, v) (sets, A) = Inr (sets', A')"
      "\<Union>(set sets') = \<Union>(set sets)"
    by blast
  from Cons.prems s(2) have "\<forall>(u, v) \<in> set L. u \<in> \<Union>(set sets') \<and> v \<in> \<Union>(set sets')"
    by simp
  from Cons.IH [OF this, of A'] s(1) show ?case by (simp add: e)
qed

lemma minimum_spanning_tree_total:
  assumes "set (dict_order (weights_keys pins)) = set (weights_keys pins)"
  shows "\<exists>A. minimum_spanning_tree dict_order pins = Inr A"
proof -
  let ?L = "sort_key weights (dict_order (weights_keys pins))"
  have "\<forall>(u, v) \<in> set ?L. u \<in> \<Union>(set (map (\<lambda>pin. {pin}) pins)) \<and>
          v \<in> \<Union>(set (map (\<lambda>pin. {pin}) pins))"
    using assms by (auto simp: weights_keys_def)
  from kruskal_fold_total [OF this, of "{}"]
  show ?thesis by (auto simp: minimum_spanning_tree_def)
qed

subsection \<open>The tree of one net\<close>

lemma spanning_tree_complete:
  assumes "spanning_tree V T"
  shows "T \<subseteq> complete_edges V" and "acyclic_edges T"
proof -
  from assms have sub: "T \<subseteq> V \<times> V" and ac: "acyclic_edges T"
    unfolding spanning_tree_def by simp_all
  show "acyclic_edges T" by (rule ac)
  show "T \<subseteq> complete_edges V"
  proof
    fix e assume e: "e \<in> T"
    obtain u v where uv: "e = (u, v)" by (cases e)
    from ac e have "e \<notin> linked (T - {e})" unfolding acyclic_edges_def by simp
    then have "u \<noteq> v" unfolding uv using linked_refl [of u "T - {(u, v)}"] by metis
    with sub e show "e \<in> complete_edges V" by (auto simp: uv complete_edges_def)
  qed
qed

lemma finite_complete_edges: "finite V \<Longrightarrow> finite (complete_edges V)"
proof -
  assume "finite V"
  moreover have "complete_edges V \<subseteq> V \<times> V" by (auto simp: complete_edges_def)
  ultimately show ?thesis by (simp add: finite_subset)
qed

lemma mst_run:
  assumes pins: "distinct pins" "pins \<noteq> []"
    and L: "set L = complete_edges (set pins)" "sorted (map weights L)"
  shows "\<exists>sets A. fold_err kruskal_step L (map (\<lambda>pin. {pin}) pins, {}) = Inr (sets, A) \<and>
           spanning_tree (set pins) A \<and>
           (\<forall>T. spanning_tree (set pins) T \<longrightarrow> total_weight A \<le> total_weight T)"
proof -
  let ?V = "set pins"
  note inv0 = kruskal_inv_initial [OF pins(1)]
  from L(1) have sub: "set L \<subseteq> complete_edges ?V" by simp
  from kruskal_fold_inv [OF inv0 sub] L(1)
  obtain sets A where run: "fold_err kruskal_step L (map (\<lambda>pin. {pin}) pins, {}) = Inr (sets, A)"
    and inv: "kruskal_inv ?V (complete_edges ?V) (sets, A)"
    by auto
  from pins(2) have V: "?V \<noteq> {}" by simp
  from kruskal_inv_spanning_tree [OF inv V] have tree: "spanning_tree ?V A" .
  from inv have finA: "finite A" unfolding kruskal_inv_def by simp
  have "total_weight A \<le> total_weight T" if T: "spanning_tree ?V T" for T
  proof -
    note Tc = spanning_tree_complete [OF T]
    from Tc(1) have finT: "finite T"
      using finite_complete_edges [of ?V] by (simp add: finite_subset)
    from tree T have card: "card A = card T" unfolding spanning_tree_def by simp
    have counts: "card {e \<in> T. nat (weights e) \<le> t} \<le> card {e \<in> A. nat (weights e) \<le> t}"
      for t
    proof -
      have eq: "{e \<in> S. nat (weights e) \<le> t} = {e \<in> S. weights e \<le> int t}"
        for S :: "(coord \<times> coord) set"
        by (auto simp: nat_le_iff)
      from run_count [OF inv0 L run, of "int t"]
           forest_count [OF _ Tc(2,1), of "int t"]
      show ?thesis unfolding eq by simp
    qed
    from counts have "\<forall>t. card {e \<in> T. nat (weights e) \<le> t} \<le> card {e \<in> A. nat (weights e) \<le> t}"
      by simp
    with finA finT card
    have "(\<Sum>e \<in> A. nat (weights e)) \<le> (\<Sum>e \<in> T. nat (weights e))"
      by (rule weight_le_by_counts)
    then show ?thesis by (simp only: total_weight_nat of_nat_le_iff)
  qed
  with run tree show ?thesis by blast
qed

lemma set_weights_keys: "set (weights_keys pins) = complete_edges (set pins)"
  by (auto simp: weights_keys_def complete_edges_def)

lemma minimum_spanning_tree_correct:
  assumes pins: "distinct pins" "pins \<noteq> []"
    and order: "set (dict_order (weights_keys pins)) = set (weights_keys pins)"
  shows "\<exists>A. minimum_spanning_tree dict_order pins = Inr A \<and> spanning_tree (set pins) A \<and>
           (\<forall>T. spanning_tree (set pins) T \<longrightarrow> total_weight A \<le> total_weight T)"
proof -
  let ?L = "sort_key weights (dict_order (weights_keys pins))"
  have "set ?L = complete_edges (set pins)" using order by (simp add: set_weights_keys)
  moreover have "sorted (map weights ?L)" by (rule sorted_sort_key)
  ultimately obtain sets A where
    "fold_err kruskal_step ?L (map (\<lambda>pin. {pin}) pins, {}) = Inr (sets, A)"
    "spanning_tree (set pins) A"
    "\<forall>T. spanning_tree (set pins) T \<longrightarrow> total_weight A \<le> total_weight T"
    using mst_run [OF pins] by blast
  then show ?thesis by (simp add: minimum_spanning_tree_def)
qed

subsection \<open>The textbook algorithm\<close>

lemma reference_simulation:
  "kruskal_inv V Es (sets, A) \<Longrightarrow> set L \<subseteq> complete_edges V \<Longrightarrow>
   fold_err kruskal_step L (sets, A) = Inr (sets', A') \<Longrightarrow>
   fold (\<lambda>e A. if fst e = snd e \<or> e \<in> (A \<union> A\<inverse>)\<^sup>+ then A else insert e A) L A = A'"
proof (induction L arbitrary: sets A Es)
  case Nil
  then show ?case by simp
next
  case (Cons e L)
  obtain u v where e: "e = (u, v)" by (cases e)
  from Cons.prems(2) e have "(u, v) \<in> complete_edges V" by simp
  then have uv: "u \<in> V" "v \<in> V" "u \<noteq> v" by (simp_all add: complete_edges_def)
  define A1 where "A1 = (if (u, v) \<in> linked A then A else insert (u, v) A)"
  from kruskal_step_inv [OF Cons.prems(1) uv, folded A1_def]
  obtain sets1 where s1: "kruskal_step (u, v) (sets, A) = Inr (sets1, A1)"
      "kruskal_inv V (insert (u, v) Es) (sets1, A1)"
    by blast
  from uv(3) have "(u, v) \<in> linked A \<longleftrightarrow> (u, v) \<in> (A \<union> A\<inverse>)\<^sup>+"
    unfolding linked_def by (simp add: rtrancl_eq_or_trancl)
  with uv(3) have ref: "(if fst e = snd e \<or> e \<in> (A \<union> A\<inverse>)\<^sup>+ then A else insert e A) = A1"
    by (simp add: e A1_def)
  from Cons.prems(3) s1(1) have rest: "fold_err kruskal_step L (sets1, A1) = Inr (sets', A')"
    by (simp add: e)
  from Cons.prems(2) have L: "set L \<subseteq> complete_edges V" by simp
  from Cons.IH [OF s1(2) L rest] ref show ?case by simp
qed

lemma kruskal_reference_run:
  assumes "distinct pins"
  shows "minimum_spanning_tree (\<lambda>ks. ks) pins = Inr (kruskal_reference pins)"
proof -
  let ?L = "sort_key weights (weights_keys pins)"
  note inv0 = kruskal_inv_initial [OF assms]
  have sub: "set ?L \<subseteq> complete_edges (set pins)" by (simp add: set_weights_keys)
  from kruskal_fold_inv [OF inv0 sub]
  obtain sets A where run: "fold_err kruskal_step ?L (map (\<lambda>pin. {pin}) pins, {}) = Inr (sets, A)"
    by auto
  from reference_simulation [OF inv0 sub run] have "kruskal_reference pins = A"
    by (simp add: kruskal_reference_def)
  with run show ?thesis by (simp add: minimum_spanning_tree_def)
qed

subsection \<open>All nets\<close>

lemma create_net_segments_entries:
  assumes trees: "\<forall>ps \<in> snd ` set pin_locations. 2 \<le> length ps \<longrightarrow>
            (\<exists>A. minimum_spanning_tree dict_order ps = Inr A)"
    and names: "distinct (map fst pin_locations)"
  shows "\<exists>segments. create_net_segments dict_order pin_locations = Inr segments \<and>
           (\<forall>n ps. (n, ps) \<in> set pin_locations \<longrightarrow> 2 \<le> length ps \<longrightarrow>
              minimum_spanning_tree dict_order ps = Inr (the (map_of segments n)) \<and>
              map_of segments n \<noteq> None)"
  using assms
proof (induction pin_locations)
  case Nil
  show ?case by simp
next
  case (Cons np pin_locations)
  obtain net pin_list where np: "np = (net, pin_list)" by (cases np)
  from Cons.prems(2) have d: "distinct (map fst pin_locations)"
    and fresh: "net \<notin> fst ` set pin_locations"
    by (simp_all add: np)
  from Cons.prems(1) have "\<forall>ps \<in> snd ` set pin_locations. 2 \<le> length ps \<longrightarrow>
            (\<exists>A. minimum_spanning_tree dict_order ps = Inr A)"
    by simp
  from Cons.IH [OF this d]
  obtain segments where s: "create_net_segments dict_order pin_locations = Inr segments"
      "\<And>n ps. (n, ps) \<in> set pin_locations \<Longrightarrow> 2 \<le> length ps \<Longrightarrow>
          minimum_spanning_tree dict_order ps = Inr (the (map_of segments n)) \<and>
          map_of segments n \<noteq> None"
    by blast
  have other: "n \<noteq> net" if "(n, ps) \<in> set pin_locations" for n ps
    using that fresh by force
  show ?case
  proof (cases "length pin_list < 2")
    case True
    have "minimum_spanning_tree dict_order ps = Inr (the (map_of segments n)) \<and>
          map_of segments n \<noteq> None"
      if "(n, ps) \<in> set (np # pin_locations)" "2 \<le> length ps" for n ps
    proof -
      from that True have "(n, ps) \<in> set pin_locations" by (auto simp: np)
      from s(2) [OF this that(2)] show ?thesis .
    qed
    moreover have "create_net_segments dict_order (np # pin_locations) = Inr segments"
      using True s(1) by (simp add: np)
    ultimately show ?thesis by blast
  next
    case False
    then have "2 \<le> length pin_list" by simp
    with Cons.prems(1)
    obtain A where A: "minimum_spanning_tree dict_order pin_list = Inr A"
      by (auto simp: np)
    have "minimum_spanning_tree dict_order ps = Inr (the (map_of ((net, A) # segments) n)) \<and>
          map_of ((net, A) # segments) n \<noteq> None"
      if "(n, ps) \<in> set (np # pin_locations)" "2 \<le> length ps" for n ps
    proof (cases "(n, ps) = (net, pin_list)")
      case True
      with A show ?thesis by simp
    next
      case False
      with that(1) have mem: "(n, ps) \<in> set pin_locations" by (auto simp: np)
      from other [OF mem] s(2) [OF mem that(2)] show ?thesis by simp
    qed
    moreover have "create_net_segments dict_order (np # pin_locations) = Inr ((net, A) # segments)"
      using False A s(1) by (simp add: np)
    ultimately show ?thesis by blast
  qed
qed

text \<open>
  Claim C3. The dictionary of pins has one entry for each net name; \<open>dict_order\<close>, the
  order in which Python enumerates the keys of the weight dictionary, enumerates exactly
  the keys. Then the segmenter succeeds, and for every net with at least two pins, the
  pins being pairwise different, the edges it returns form a spanning tree of the pins:
  they join pins, connect every pin with every other, are acyclic and are one fewer than
  the pins. Their total Manhattan weight is that of the tree of the textbook Kruskal
  algorithm, and no spanning tree of the pins weighs less.
\<close>

theorem create_net_segments_mst:
  assumes order: "\<forall>ks. set (dict_order ks) = set ks"
    and names: "distinct (map fst pin_locations)"
    and net: "(net, pins) \<in> set pin_locations" "2 \<le> length pins" "distinct pins"
  shows "\<exists>segments A. create_net_segments dict_order pin_locations = Inr segments \<and>
           map_of segments net = Some A \<and> spanning_tree (set pins) A \<and>
           total_weight A = total_weight (kruskal_reference pins) \<and>
           (\<forall>T. spanning_tree (set pins) T \<longrightarrow> total_weight A \<le> total_weight T)"
proof -
  have trees: "\<forall>ps \<in> snd ` set pin_locations. 2 \<le> length ps \<longrightarrow>
            (\<exists>A. minimum_spanning_tree dict_order ps = Inr A)"
  proof (intro ballI impI)
    fix ps
    from order have "set (dict_order (weights_keys ps)) = set (weights_keys ps)" by simp
    then show "\<exists>A. minimum_spanning_tree dict_order ps = Inr A"
      by (rule minimum_spanning_tree_total)
  qed
  from create_net_segments_entries [OF trees names] net(1,2)
  obtain segments where s: "create_net_segments dict_order pin_locations = Inr segments"
      "minimum_spanning_tree dict_order pins = Inr (the (map_of segments net))"
      "map_of segments net \<noteq> None"
    by blast
  from net have pins: "distinct pins" "pins \<noteq> []" by auto
  from minimum_spanning_tree_correct [OF pins] order
  obtain A where A: "minimum_spanning_tree dict_order pins = Inr A"
      "spanning_tree (set pins) A"
      "\<forall>T. spanning_tree (set pins) T \<longrightarrow> total_weight A \<le> total_weight T"
    by blast
  from minimum_spanning_tree_correct [OF pins, of "\<lambda>ks. ks"] kruskal_reference_run [OF pins(1)]
  have R: "spanning_tree (set pins) (kruskal_reference pins)"
      "\<forall>T. spanning_tree (set pins) T \<longrightarrow> total_weight (kruskal_reference pins) \<le> total_weight T"
    by auto
  from A(2,3) R have "total_weight A = total_weight (kruskal_reference pins)"
    by (simp add: order_antisym)
  moreover from s(2,3) A(1) have "map_of segments net = Some A" by auto
  ultimately show ?thesis using s(1) A(2,3) by blast
qed

theorem create_net_segments_mst_witness:
  "\<exists>segments A.
     create_net_segments rev
       [(''m'', [(0, 0, 0)]),
        (''n'', [(0, 0, 0), (0, 0, 10), (0, 10, 0), (0, 10, 10)])] = Inr segments \<and>
     map_of segments ''n'' = Some A \<and>
     spanning_tree (set [(0, 0, 0), (0, 0, 10), (0, 10, 0), (0, 10, 10)]) A \<and>
     total_weight A =
       total_weight (kruskal_reference [(0, 0, 0), (0, 0, 10), (0, 10, 0), (0, 10, 10)])"
proof -
  let ?pins = "[(0, 0, 0), (0, 0, 10), (0, 10, 0), (0, 10, 10)] :: coord list"
  let ?locs = "[(''m'', [(0, 0, 0)]), (''n'', ?pins)]"
  have order: "\<forall>ks :: (coord \<times> coord) list. set (rev ks) = set ks" by simp
  have names: "distinct (map fst ?locs)" by simp
  have net: "(''n'', ?pins) \<in> set ?locs" "2 \<le> length ?pins" "distinct ?pins" by simp_all
  from create_net_segments_mst [OF order names net]
  show ?thesis by blast
qed

end
